theory Spec2Isabelle
  imports Main
begin

section \<open>JavaScript values\<close>

text \<open>
  The two controllers of the repository (\<^verbatim>\<open>src/unnamed/part_000\<close> and
  \<^verbatim>\<open>src/src/Client.js\<close>) read message, option, response and error objects by
  property name and branch on JavaScript truthiness. A value is modelled by
  \<open>jsval\<close>; an object is an association list in property order, a property that
  is absent reads as \<open>Undefined\<close>. Numbers are integers (no NaN, no fractions).
\<close>

datatype jsval =
    Undefined
  | Null
  | JBool bool
  | JNum int
  | JStr string
  | JArr "jsval list"
  | JObj "(string \<times> jsval) list"

type_synonym obj = "(string \<times> jsval) list"

text \<open>\<open>!v\<close> is \<open>\<not> truthy v\<close>.\<close>

fun truthy :: "jsval \<Rightarrow> bool" where
  "truthy Undefined = False"
| "truthy Null = False"
| "truthy (JBool b) = b"
| "truthy (JNum n) = (n \<noteq> 0)"
| "truthy (JStr s) = (s \<noteq> [])"
| "truthy (JArr xs) = True"
| "truthy (JObj kvs) = True"

text \<open>\<open>ob.k\<close> on an object.\<close>

definition js_get :: "obj \<Rightarrow> string \<Rightarrow> jsval" where
  "js_get ob k = (case map_of ob k of None \<Rightarrow> Undefined | Some v \<Rightarrow> v)"

text \<open>\<open>v.k\<close> on a value that is truthy: a primitive or an array has no such property.\<close>

definition js_member :: "jsval \<Rightarrow> string \<Rightarrow> jsval" where
  "js_member v k = (case v of JObj kvs \<Rightarrow> js_get kvs k | _ \<Rightarrow> Undefined)"

text \<open>\<open>ob.k = v\<close>: an existing property keeps its place, a new one goes last.\<close>

fun js_set :: "obj \<Rightarrow> string \<Rightarrow> jsval \<Rightarrow> obj" where
  "js_set [] k v = [(k, v)]"
| "js_set ((k', v') # kvs) k v = (if k' = k then (k, v) # kvs else (k', v') # js_set kvs k v)"

text \<open>\<open>{...a, ...b}\<close>: the properties of \<open>b\<close> are assigned onto \<open>a\<close> in order.\<close>

fun js_spread :: "obj \<Rightarrow> obj \<Rightarrow> obj" where
  "js_spread a [] = a"
| "js_spread a ((k, v) # kvs) = js_spread (js_set a k v) kvs"

definition digit :: "nat \<Rightarrow> char" where
  "digit d = (if d = 0 then CHR ''0'' else if d = 1 then CHR ''1'' else if d = 2 then CHR ''2''
     else if d = 3 then CHR ''3'' else if d = 4 then CHR ''4'' else if d = 5 then CHR ''5''
     else if d = 6 then CHR ''6'' else if d = 7 then CHR ''7'' else if d = 8 then CHR ''8''
     else CHR ''9'')"

fun show_nat :: "nat \<Rightarrow> string" where
  "show_nat n = (if n < 10 then [digit n] else show_nat (n div 10) @ [digit (n mod 10)])"

declare show_nat.simps [simp del]

text \<open>\<open>String(v)\<close>, also what a template literal \<open>`ack:${v}`\<close> inserts.\<close>

fun js_string :: "jsval \<Rightarrow> string" where
  "js_string Undefined = ''undefined''"
| "js_string Null = ''null''"
| "js_string (JBool b) = (if b then ''true'' else ''false'')"
| "js_string (JNum n) = (if n < 0 then CHR ''-'' # show_nat (nat (- n)) else show_nat (nat n))"
| "js_string (JStr s) = s"
| "js_string (JArr xs) = ''[array]''"
| "js_string (JObj kvs) = ''[object Object]''"

text \<open>\<open>new Error(msg)\<close>.\<close>

definition js_Error :: "string \<Rightarrow> jsval" where
  "js_Error msg = JObj [(''message'', JStr msg)]"

section \<open>Completion of a call\<close>

text \<open>
  A call either returns or throws. A function of the source that can throw returns
  \<open>(thrown, state)\<close>: \<open>None\<close> when it returned, \<open>Some e\<close> when \<open>e\<close> was
  thrown, with the state as the throw left it.
\<close>

type_synonym 's completion = "jsval option \<times> 's"

definition andThen :: "('s \<Rightarrow> 's completion) \<Rightarrow> ('s \<Rightarrow> 's completion) \<Rightarrow> 's \<Rightarrow> 's completion" where
  "andThen f g s = (case f s of (None, s') \<Rightarrow> g s' | (Some e, s') \<Rightarrow> (Some e, s'))"

definition returns :: "('s \<Rightarrow> 's) \<Rightarrow> 's \<Rightarrow> 's completion" where
  "returns f s = (None, f s)"

text \<open>\<open>xs.forEach(f)\<close>: a throw of \<open>f\<close> ends the loop.\<close>

fun forEach :: "('a \<Rightarrow> 's \<Rightarrow> 's completion) \<Rightarrow> 'a list \<Rightarrow> 's \<Rightarrow> 's completion" where
  "forEach f [] s = (None, s)"
| "forEach f (x # xs) s = (case f x s of (None, s') \<Rightarrow> forEach f xs s' | (Some e, s') \<Rightarrow> (Some e, s'))"

section \<open>The collaborators\<close>

subsection \<open>Application code\<close>

text \<open>
  An event handler and a \<open>send\<close> callback are application functions. They are
  modelled by what the controller can see of a call: whether it returned
  (\<open>None\<close>) or threw (\<open>Some e\<close>). A handler that calls back into the client is
  outside the model.
\<close>

type_synonym handler = "jsval list \<Rightarrow> jsval option"
type_synonym callback = "jsval \<Rightarrow> jsval option"

subsection \<open>Timers, the id generator, the request channel\<close>

text \<open>
  The closures the source hands to \<open>setTimeout\<close>: the validation error of
  \<open>send\<close>, the ack timeout of an ack waiter (with the event it listens to), the
  reopen of \<^verbatim>\<open>part_000\<close>, and the reopen of \<^verbatim>\<open>Client.js\<close>, which carries the
  unsent messages.
\<close>

datatype timer =
    Validation callback jsval
  | AckTimeout string callback
  | Reopen
  | ReopenWith "obj list"

text \<open>What \<open>request(...)\<close> was called with; \<open>req_messages\<close> is the batch the error
  closure captured.\<close>

record request_args =
  req_url :: string
  req_client :: jsval
  req_data :: obj
  req_timeout :: jsval
  req_messages :: "obj list"

text \<open>
  The part of the state that lives outside the controller object: the pending timers
  \<open>(id, delay, closure)\<close>, the calls made to \<open>send\<close> callbacks (the timer id of
  the registration that made the call, and the argument), the events emitted to the
  application, the requests in flight, and the counter of \<^verbatim>\<open>get-uid\<close>.
\<close>

record world =
  timers :: "(nat \<times> nat \<times> timer) list"
  next_timer :: nat
  calls :: "(nat \<times> jsval) list"
  emitted :: "(string \<times> jsval list) list"
  requests :: "(nat \<times> request_args) list"
  next_request :: nat
  uid_counter :: nat

definition setTimeout :: "timer \<Rightarrow> nat \<Rightarrow> 'a world_scheme \<Rightarrow> 'a world_scheme" where
  "setTimeout t d w = w\<lparr>timers := timers w @ [(next_timer w, d, t)], next_timer := next_timer w + 1\<rparr>"

definition clearTimeout :: "nat \<Rightarrow> 'a world_scheme \<Rightarrow> 'a world_scheme" where
  "clearTimeout tid w = w\<lparr>timers := filter (\<lambda>(i, d, t). i \<noteq> tid) (timers w)\<rparr>"

text \<open>\<open>callback(arg)\<close> made by the registration \<open>tid\<close>.\<close>

definition call :: "nat \<Rightarrow> callback \<Rightarrow> jsval \<Rightarrow> 'a world_scheme \<Rightarrow> 'a world_scheme completion" where
  "call tid cb arg w = (cb arg, w\<lparr>calls := calls w @ [(tid, arg)]\<rparr>)"

text \<open>\<open>String(uid())\<close>: \<^verbatim>\<open>get-uid\<close> is taken as a counter.\<close>

definition uid :: "'a world_scheme \<Rightarrow> nat" where
  "uid w = uid_counter w"

definition uid_next :: "'a world_scheme \<Rightarrow> 'a world_scheme" where
  "uid_next w = w\<lparr>uid_counter := uid_counter w + 1\<rparr>"

definition in_flight :: "nat \<Rightarrow> 'a world_scheme \<Rightarrow> bool" where
  "in_flight rid w = (map_of (requests w) rid \<noteq> None)"

subsection \<open>Multiplexer and Backoff\<close>

text \<open>
  \<^verbatim>\<open>lpio-multiplexer\<close> and \<^verbatim>\<open>backo\<close> are packages the repository imports. The
  multiplexer is a buffer of pending messages with \<open>add\<close> (one message or an array),
  \<open>get\<close>, \<open>reset\<close>, \<open>start\<close> and \<open>stop\<close>; it drains on its own while started.
  The backoff counts attempts; \<open>duration()\<close> is \<open>min(ms * factor ^ attempts, max) | 0\<close>
  and counts one attempt more. The record holds the fields of the instance (after
  the package's defaults); they are taken as natural numbers, with \<open>max\<close> below
  \<open>2^31\<close>, where \<open>| 0\<close> changes nothing, and with no jitter. The curve itself
  is the package's; the theorems use the delay at zero attempts and the count.
\<close>

record multiplexer =
  buffer :: "obj list"
  started :: bool

definition mux_add :: "obj list \<Rightarrow> multiplexer \<Rightarrow> multiplexer" where
  "mux_add ms m = m\<lparr>buffer := buffer m @ ms\<rparr>"

definition mux_reset :: "multiplexer \<Rightarrow> multiplexer" where
  "mux_reset m = m\<lparr>buffer := []\<rparr>"

definition mux_start :: "multiplexer \<Rightarrow> multiplexer" where
  "mux_start m = m\<lparr>started := True\<rparr>"

definition mux_stop :: "multiplexer \<Rightarrow> multiplexer" where
  "mux_stop m = m\<lparr>started := False\<rparr>"

record backoff =
  bms :: nat
  bmax :: nat
  bfactor :: nat
  attempts :: nat

definition duration :: "backoff \<Rightarrow> nat" where
  "duration b = min (bms b * bfactor b ^ attempts b) (bmax b)"

definition duration_next :: "backoff \<Rightarrow> backoff" where
  "duration_next b = b\<lparr>attempts := attempts b + 1\<rparr>"

definition reset :: "backoff \<Rightarrow> backoff" where
  "reset b = b\<lparr>attempts := 0\<rparr>"

section \<open>The controller of \<^verbatim>\<open>src/unnamed/part_000\<close>\<close>

text \<open>
  The class \<open>Client\<close> of \<^verbatim>\<open>part_000\<close>. The emitter \<open>out\<close> holds the handlers
  of the application and the one-shot closures \<open>send\<close> registers on \<open>success\<close>;
  the emitter \<open>in\<close> holds the \<open>onAck\<close> closures of \<open>subscribeAck\<close>, each
  with the id of its timer (\<open>timeoutId\<close>) and its callback. Listeners are kept in the
  order they were registered. The calls to \<open>log\<close> (the \<^verbatim>\<open>debug\<close> package) have
  no effect on the state and are left out.
\<close>

datatype out_listener =
    Handler handler
  | AckDeferred obj callback

record client = world +
  opt_url :: string
  opt_data :: obj
  opt_ackTimeout :: nat
  opt_responseTimeout :: nat
  client_id :: jsval
  connected :: bool
  disabled :: bool
  loading :: bool
  reopening :: bool
  request :: "nat option"
  backoff :: backoff
  multiplexer :: multiplexer
  out_emitter :: "(string \<times> out_listener) list"
  in_emitter :: "(string \<times> nat \<times> callback) list"

text \<open>
  \<open>subscribeAck(message, callback)\<close>: \<open>onAck\<close> is registered once on
  \<open>ack:<id>\<close> of \<open>in\<close>, then the timeout is set. The id \<open>setTimeout\<close> returns
  is the one \<open>onAck\<close> clears.
\<close>

definition subscribeAck :: "obj \<Rightarrow> callback \<Rightarrow> client \<Rightarrow> client" where
  "subscribeAck message cb s =
     (let ev = ''ack:'' @ js_string (js_get message ''id'');
          s1 = s\<lparr>in_emitter := in_emitter s @ [(ev, next_timer s, cb)]\<rparr>
      in setTimeout (AckTimeout ev cb) (opt_ackTimeout s1) s1)"

text \<open>
  \<open>this.out.emit(ev, ...args)\<close> of \<^verbatim>\<open>emitter-component\<close>: the listeners of the
  event are called in order; a one-shot listener is removed before it runs; a throw
  leaves the remaining listeners uncalled and in place. \<open>out_dispatch\<close> walks the
  listeners and returns the ones that stay registered.
\<close>

fun out_dispatch :: "(string \<times> out_listener) list \<Rightarrow> string \<Rightarrow> jsval list \<Rightarrow> client
    \<Rightarrow> jsval option \<times> (string \<times> out_listener) list \<times> client" where
  "out_dispatch [] ev args s = (None, [], s)"
| "out_dispatch ((e, l) # ls) ev args s =
     (if e \<noteq> ev then
        (case out_dispatch ls ev args s of (r, ls', s') \<Rightarrow> (r, (e, l) # ls', s'))
      else
        (case l of
           Handler h \<Rightarrow>
             (case h args of
                Some x \<Rightarrow> (Some x, (e, l) # ls, s)
              | None \<Rightarrow> (case out_dispatch ls ev args s of (r, ls', s') \<Rightarrow> (r, (e, l) # ls', s')))
         | AckDeferred message cb \<Rightarrow> out_dispatch ls ev args (subscribeAck message cb s)))"

definition out_emit :: "string \<Rightarrow> jsval list \<Rightarrow> client \<Rightarrow> client completion" where
  "out_emit ev args s =
     (case out_dispatch (out_emitter s) ev args (s\<lparr>emitted := emitted s @ [(ev, args)]\<rparr>) of
        (r, ls', s') \<Rightarrow> (r, s'\<lparr>out_emitter := ls'\<rparr>))"

text \<open>\<open>emit()\<close>: the emission to \<open>out\<close> inside \<open>try\<close>; what was caught is emitted
  as \<open>error\<close>, outside the \<open>try\<close>.\<close>

definition emit :: "string \<Rightarrow> jsval list \<Rightarrow> client \<Rightarrow> client completion" where
  "emit ev args s =
     (case out_emit ev args s of
        (None, s') \<Rightarrow> (None, s')
      | (Some err, s') \<Rightarrow> out_emit ''error'' [err] s')"

text \<open>
  \<open>this.in.emit(`ack:${id}`, message)\<close>: every \<open>onAck\<close> of the event is removed
  (it was registered with \<open>once\<close>), clears its timer and calls its callback with no
  argument.
\<close>

fun in_dispatch :: "(string \<times> nat \<times> callback) list \<Rightarrow> string \<Rightarrow> client
    \<Rightarrow> jsval option \<times> (string \<times> nat \<times> callback) list \<times> client" where
  "in_dispatch [] ev s = (None, [], s)"
| "in_dispatch ((e, tid, cb) # ls) ev s =
     (if e \<noteq> ev then
        (case in_dispatch ls ev s of (r, ls', s') \<Rightarrow> (r, (e, tid, cb) # ls', s'))
      else
        (case call tid cb Undefined (clearTimeout tid s) of
           (Some x, s') \<Rightarrow> (Some x, ls, s')
         | (None, s') \<Rightarrow> in_dispatch ls ev s'))"

definition in_emit :: "string \<Rightarrow> client \<Rightarrow> client completion" where
  "in_emit ev s =
     (case in_dispatch (in_emitter s) ev s of (r, ls', s') \<Rightarrow> (r, s'\<lparr>in_emitter := ls'\<rparr>))"

text \<open>\<open>this.in.off(ev, onAck)\<close>: the first listener of the event that is this
  \<open>onAck\<close> is removed.\<close>

fun in_off :: "string \<Rightarrow> nat \<Rightarrow> (string \<times> nat \<times> callback) list \<Rightarrow> (string \<times> nat \<times> callback) list" where
  "in_off ev tid [] = []"
| "in_off ev tid ((e, t, cb) # ls) =
     (if e = ev \<and> t = tid then ls else (e, t, cb) # in_off ev tid ls)"

text \<open>\<open>send(options = {}, callback)\<close>; \<open>None\<close> is a call without a callback.\<close>

definition send :: "obj \<Rightarrow> callback option \<Rightarrow> client \<Rightarrow> client" where
  "send options0 callback s =
     (let options = (if \<not> truthy (js_get options0 ''type'')
                     then js_set options0 ''type'' (JStr ''data'') else options0)
      in if js_get options ''type'' = JStr ''data'' \<and> \<not> truthy (js_get options ''data'') then
           (case callback of
              Some cb \<Rightarrow> setTimeout (Validation cb (js_Error ''Undefined property \"data\"'')) 0 s
            | None \<Rightarrow> s)
         else
           (let message = js_spread [(''id'', JStr (show_nat (uid s)))] options;
                s1 = uid_next s;
                s2 = s1\<lparr>multiplexer := mux_add [message] (multiplexer s1)\<rparr>
            in case callback of
                 None \<Rightarrow> s2
               | Some cb \<Rightarrow>
                   if \<not> connected s2 \<or> reopening s2
                   then s2\<lparr>out_emitter := out_emitter s2 @ [(''success'', AckDeferred message cb)]\<rparr>
                   else subscribeAck message cb s2))"

text \<open>\<open>onRequestClose()\<close>.\<close>

definition onRequestClose :: "client \<Rightarrow> client" where
  "onRequestClose s = s\<lparr>request := None, loading := False\<rparr>"

text \<open>
  Modelled from the spec: the module \<^verbatim>\<open>./request\<close> (the RequestChannel) is not among
  the sources. \<open>request(...)\<close> puts one request in flight and returns its handle;
  a request leaves flight once, when it closes, and \<open>onClose\<close> is called then; a
  request that has closed calls nothing more. \<open>channel_close\<close> is the handle's
  \<open>close()\<close>.
\<close>

definition channel_open :: "request_args \<Rightarrow> client \<Rightarrow> client" where
  "channel_open a s =
     s\<lparr>request := Some (next_request s),
       requests := requests s @ [(next_request s, a)],
       next_request := next_request s + 1\<rparr>"

definition channel_close :: "nat \<Rightarrow> client \<Rightarrow> client" where
  "channel_close rid s =
     (if in_flight rid s
      then onRequestClose (s\<lparr>requests := filter (\<lambda>(r, a). r \<noteq> rid) (requests s)\<rparr>)
      else s)"

text \<open>\<open>open(messages = [])\<close>.\<close>

definition "open" :: "obj list \<Rightarrow> client \<Rightarrow> client" where
  "open messages s =
     (if disabled s \<or> loading s then s\<lparr>multiplexer := mux_add messages (multiplexer s)\<rparr>
      else
        (let s1 = s\<lparr>loading := True\<rparr>
         in channel_open
              \<lparr>req_url = opt_url s1,
               req_client = client_id s1,
               req_data = js_spread (opt_data s1) [(''messages'', JArr (map JObj messages))],
               req_timeout = JNum (int (opt_responseTimeout s1)),
               req_messages = messages\<rparr> s1))"

text \<open>\<open>onDisconnected()\<close> and \<open>onConnected()\<close>.\<close>

definition onDisconnected :: "client \<Rightarrow> client completion" where
  "onDisconnected s =
     (if \<not> connected s then (None, s)
      else emit ''disconnected'' []
             (s\<lparr>multiplexer := mux_stop (multiplexer s), client_id := Undefined, connected := False\<rparr>))"

definition onConnected :: "client \<Rightarrow> client completion" where
  "onConnected s =
     (if connected s \<or> \<not> truthy (client_id s) then (None, s)
      else emit ''connected'' [] (s\<lparr>connected := True\<rparr>))"

text \<open>\<open>connect()\<close> and \<open>disconnect()\<close>.\<close>

definition connect :: "client \<Rightarrow> client" where
  "connect s = (if connected s \<or> loading s then s else open [] (s\<lparr>disabled := False\<rparr>))"

definition disconnect :: "client \<Rightarrow> client completion" where
  "disconnect s =
     (let s1 = s\<lparr>disabled := True\<rparr>;
          s2 = (case request s1 of Some rid \<Rightarrow> channel_close rid s1 | None \<Rightarrow> s1)
      in onDisconnected s2)"

text \<open>\<open>reopen()\<close>; the timer's closure is \<open>reopen_timer\<close>.\<close>

definition reopen :: "client \<Rightarrow> client completion" where
  "reopen s =
     (if reopening s then (None, s)
      else
        (let d = duration (backoff s);
             s1 = s\<lparr>backoff := duration_next (backoff s)\<rparr>;
             s2 = s1\<lparr>reopening := True\<rparr>;
             s3 = s2\<lparr>multiplexer := mux_stop (multiplexer s2)\<rparr>
         in andThen (\<lambda>s. if d \<ge> bmax (backoff s) then onDisconnected s else (None, s))
                    (returns (setTimeout Reopen d)) s3))"

definition reopen_timer :: "client \<Rightarrow> client" where
  "reopen_timer s = open [] (s\<lparr>reopening := False\<rparr>)"

text \<open>\<open>onMessage(message)\<close>.\<close>

definition onMessage :: "obj \<Rightarrow> client \<Rightarrow> client completion" where
  "onMessage message =
     andThen (emit ''message'' [JObj message])
       (\<lambda>s. if js_get message ''type'' = JStr ''ack''
             then in_emit (''ack:'' @ js_string (js_get message ''id'')) s
             else
               andThen
                 (\<lambda>s. if js_get message ''type'' = JStr ''data'' \<and> truthy (js_get message ''data'')
                       then emit ''data'' [js_get message ''data''] s else (None, s))
                 (returns (\<lambda>s. s\<lparr>multiplexer :=
                    mux_add [[(''type'', JStr ''ack''), (''id'', js_get message ''id'')]] (multiplexer s)\<rparr>))
                 s)"

text \<open>A response: \<open>res.set\<close> and the array \<open>res.messages\<close>.\<close>

record response =
  res_set :: jsval
  res_messages :: "obj list"

definition res_val :: "response \<Rightarrow> jsval" where
  "res_val res = JObj [(''set'', res_set res), (''messages'', JArr (map JObj (res_messages res)))]"

text \<open>\<open>onRequestSuccess(res)\<close>.\<close>

definition onRequestSuccess :: "response \<Rightarrow> client \<Rightarrow> client completion" where
  "onRequestSuccess res =
     andThen (emit ''success'' [res_val res])
    (andThen (returns (\<lambda>s. s\<lparr>backoff := reset (backoff s)\<rparr>))
    (andThen
       (\<lambda>s. if truthy (res_set res) \<and> truthy (js_member (res_set res) ''id'')
             then andThen (returns (\<lambda>s. s\<lparr>client_id := js_member (res_set res) ''id''\<rparr>))
                 (andThen onConnected (\<lambda>s. emit ''set:id'' [client_id s] s)) s
             else (None, s))
    (andThen onConnected
    (andThen (forEach onMessage (res_messages res))
       (returns
          (\<lambda>s. let messages = buffer (multiplexer s);
                    s1 = s\<lparr>multiplexer := mux_reset (multiplexer s)\<rparr>;
                    s2 = s1\<lparr>multiplexer := mux_start (multiplexer s1)\<rparr>
                in open messages s2))))))"

text \<open>\<open>onUnauthorized()\<close> and \<open>onRequestError(err)\<close>.\<close>

definition onUnauthorized :: "client \<Rightarrow> client completion" where
  "onUnauthorized = andThen (emit ''unauthorized'' []) disconnect"

definition onRequestError :: "obj \<Rightarrow> client \<Rightarrow> client completion" where
  "onRequestError err =
     andThen (emit ''error'' [JObj err])
       (\<lambda>s. if js_get err ''status'' = JNum 401 then onUnauthorized s else reopen s)"

text \<open>\<open>onDrain(messages)\<close>.\<close>

definition onDrain :: "obj list \<Rightarrow> client \<Rightarrow> client" where
  "onDrain messages s =
     open messages (case request s of Some rid \<Rightarrow> channel_close rid s | None \<Rightarrow> s)"

text \<open>The \<open>onError\<close> closure \<open>open\<close> gives the request, for the batch \<open>messages\<close>.\<close>

definition onError :: "obj list \<Rightarrow> obj \<Rightarrow> client \<Rightarrow> client completion" where
  "onError messages err s = onRequestError err (s\<lparr>multiplexer := mux_add messages (multiplexer s)\<rparr>)"

text \<open>A timer that fires is no longer pending; its closure runs.\<close>

definition fire :: "nat \<Rightarrow> client \<Rightarrow> client completion" where
  "fire tid s =
     (case map_of (timers s) tid of
        None \<Rightarrow> (None, s)
      | Some (d, t) \<Rightarrow>
          (let s1 = clearTimeout tid s
           in case t of
                Validation cb err \<Rightarrow> call tid cb err s1
              | AckTimeout ev cb \<Rightarrow>
                  call tid cb (js_Error ''Delivery timeout.'')
                    (s1\<lparr>in_emitter := in_off ev tid (in_emitter s1)\<rparr>)
              | Reopen \<Rightarrow> (None, reopen_timer s1)
              | ReopenWith messages \<Rightarrow> (None, s1)))"

text \<open>The constructor: the merged options, a fresh backoff and multiplexer.\<close>

definition new_Client :: "jsval \<Rightarrow> string \<Rightarrow> obj \<Rightarrow> nat \<Rightarrow> nat \<Rightarrow> backoff \<Rightarrow> multiplexer \<Rightarrow> client" where
  "new_Client cid url data ackTimeout responseTimeout b m =
     \<lparr>timers = [], next_timer = 0, calls = [], emitted = [], requests = [], next_request = 0,
      uid_counter = 0,
      opt_url = url, opt_data = data, opt_ackTimeout = ackTimeout,
      opt_responseTimeout = responseTimeout,
      client_id = cid, connected = False, disabled = True, loading = False, reopening = False,
      request = None, backoff = b\<lparr>attempts := 0\<rparr>, multiplexer = m\<lparr>buffer := []\<rparr>,
      out_emitter = [], in_emitter = []\<rparr>"

text \<open>
  What can happen to a client: the application calls \<open>connect\<close>, \<open>disconnect\<close>,
  \<open>send\<close> or registers a handler on \<open>out\<close>; the multiplexer, while started and
  not empty, drains (it resets its buffer and notifies \<open>onDrain\<close>); a pending timer
  fires; a request in flight succeeds or fails. A request that completes closes and
  calls its result callback; nothing in the sources fixes which comes first, so
  both orders are events (\<open>True\<close>: \<open>onClose\<close> first). An exception that reaches the
  event loop or the caller leaves the state as it is.
\<close>

datatype event =
    Connect
  | Disconnect
  | Send obj "callback option"
  | On string handler
  | Drain
  | Fire nat
  | Succeed nat response bool
  | Fail nat obj bool

fun step :: "event \<Rightarrow> client \<Rightarrow> client" where
  "step Connect s = connect s"
| "step Disconnect s = snd (disconnect s)"
| "step (Send options callback) s = send options callback s"
| "step (On ev h) s = s\<lparr>out_emitter := out_emitter s @ [(ev, Handler h)]\<rparr>"
| "step Drain s =
     (if started (multiplexer s) \<and> buffer (multiplexer s) \<noteq> []
      then onDrain (buffer (multiplexer s)) (s\<lparr>multiplexer := mux_reset (multiplexer s)\<rparr>)
      else s)"
| "step (Fire tid) s = snd (fire tid s)"
| "step (Succeed rid res close_first) s =
     (case map_of (requests s) rid of
        None \<Rightarrow> s
      | Some a \<Rightarrow>
          if close_first then snd (onRequestSuccess res (channel_close rid s))
          else channel_close rid (snd (onRequestSuccess res s)))"
| "step (Fail rid err close_first) s =
     (case map_of (requests s) rid of
        None \<Rightarrow> s
      | Some a \<Rightarrow>
          if close_first then snd (onError (req_messages a) err (channel_close rid s))
          else channel_close rid (snd (onError (req_messages a) err s)))"

definition run :: "event list \<Rightarrow> client \<Rightarrow> client" where
  "run es s = fold step es s"

section \<open>The controller of \<^verbatim>\<open>src/src/Client.js\<close>\<close>

text \<open>
  The class \<open>Client\<close> of \<^verbatim>\<open>Client.js\<close> extends the emitter: the handlers of the
  application and the \<open>onAck\<close> closures of \<open>send\<close> are listeners of the client
  itself, and every emission is the emitter's own \<open>emit\<close>, with no \<open>try\<close>
  around it. The names of this section are the source's names with a prime.
  The multiplexer notifies \<open>onDrain\<close> once for each time \<open>connect\<close> subscribed
  it (\<open>drain_listeners\<close>). The constructor's call \<open>ping(...)\<close> names a function
  the file neither defines nor imports; it is left out.
\<close>

datatype listener' =
    Handler' handler
  | OnAck' nat callback

record client' = world +
  options_id :: jsval
  options_user :: jsval
  options_url :: string
  options_disconnectedAfter :: nat
  options_ackTimeout :: nat
  connected' :: bool
  disabled' :: bool
  loading' :: bool
  request' :: "nat option"
  backoff' :: backoff
  multiplexer' :: multiplexer
  drain_listeners :: nat
  callbacks :: "(string \<times> listener') list"

fun dispatch' :: "(string \<times> listener') list \<Rightarrow> string \<Rightarrow> jsval list \<Rightarrow> client'
    \<Rightarrow> jsval option \<times> (string \<times> listener') list \<times> client'" where
  "dispatch' [] ev args s = (None, [], s)"
| "dispatch' ((e, l) # ls) ev args s =
     (if e \<noteq> ev then
        (case dispatch' ls ev args s of (r, ls', s') \<Rightarrow> (r, (e, l) # ls', s'))
      else
        (case l of
           Handler' h \<Rightarrow>
             (case h args of
                Some x \<Rightarrow> (Some x, (e, l) # ls, s)
              | None \<Rightarrow> (case dispatch' ls ev args s of (r, ls', s') \<Rightarrow> (r, (e, l) # ls', s')))
         | OnAck' tid cb \<Rightarrow>
             (case call tid cb Undefined (clearTimeout tid s) of
                (Some x, s') \<Rightarrow> (Some x, ls, s')
              | (None, s') \<Rightarrow> dispatch' ls ev args s')))"

definition emit' :: "string \<Rightarrow> jsval list \<Rightarrow> client' \<Rightarrow> client' completion" where
  "emit' ev args s =
     (case dispatch' (callbacks s) ev args (s\<lparr>emitted := emitted s @ [(ev, args)]\<rparr>) of
        (r, ls', s') \<Rightarrow> (r, s'\<lparr>callbacks := ls'\<rparr>))"

fun off' :: "string \<Rightarrow> nat \<Rightarrow> (string \<times> listener') list \<Rightarrow> (string \<times> listener') list" where
  "off' ev tid [] = []"
| "off' ev tid ((e, l) # ls) =
     (if e = ev \<and> (case l of OnAck' t cb \<Rightarrow> t = tid | Handler' h \<Rightarrow> False) then ls
      else (e, l) # off' ev tid ls)"

text \<open>\<open>let noop = () => {}\<close>, the default of \<open>send\<close>'s callback.\<close>

definition noop :: callback where
  "noop arg = None"

text \<open>\<open>send(options, callback = noop)\<close>: of the two checks the later assignment
  to \<open>err\<close> wins.\<close>

definition send' :: "obj \<Rightarrow> callback option \<Rightarrow> client' \<Rightarrow> client'" where
  "send' options callback0 s =
     (let callback = (case callback0 of None \<Rightarrow> noop | Some cb \<Rightarrow> cb);
          err = (if js_get options ''type'' = JStr ''user'' then
                   (if \<not> truthy (js_get options ''recipient'') then Some (js_Error ''Recipient is undefined.'')
                    else if \<not> truthy (js_get options ''data'') then Some (js_Error ''Data is undefined.'')
                    else None)
                 else None)
      in case err of
           Some e \<Rightarrow> setTimeout (Validation callback e) 0 s
         | None \<Rightarrow>
             (let message = js_spread
                    [(''id'', JStr (show_nat (uid s))), (''type'', JStr ''user''),
                     (''client'', options_id s), (''sender'', options_user s)] options;
                  s1 = uid_next s;
                  s2 = s1\<lparr>multiplexer' := mux_add [message] (multiplexer' s1)\<rparr>;
                  ev = ''ack:'' @ js_string (js_get message ''id'');
                  s3 = s2\<lparr>callbacks := callbacks s2 @ [(ev, OnAck' (next_timer s2) callback)]\<rparr>
              in setTimeout (AckTimeout ev callback) (options_ackTimeout s3) s3))"

definition onRequestClose' :: "client' \<Rightarrow> client'" where
  "onRequestClose' s = s\<lparr>request' := None, loading' := False\<rparr>"

text \<open>
  Modelled from the spec: the module \<^verbatim>\<open>./request\<close>, as for \<^verbatim>\<open>part_000\<close>;
  \<open>channel_close'\<close> is the handle's \<open>abort()\<close>.
\<close>

definition channel_open' :: "request_args \<Rightarrow> client' \<Rightarrow> client'" where
  "channel_open' a s =
     s\<lparr>request' := Some (next_request s),
       requests := requests s @ [(next_request s, a)],
       next_request := next_request s + 1\<rparr>"

definition channel_close' :: "nat \<Rightarrow> client' \<Rightarrow> client'" where
  "channel_close' rid s =
     (if in_flight rid s
      then onRequestClose' (s\<lparr>requests := filter (\<lambda>(r, a). r \<noteq> rid) (requests s)\<rparr>)
      else s)"

definition open' :: "obj list \<Rightarrow> client' \<Rightarrow> client'" where
  "open' messages s =
     (if disabled' s \<or> loading' s then s\<lparr>multiplexer' := mux_add messages (multiplexer' s)\<rparr>
      else
        (let s1 = s\<lparr>loading' := True\<rparr>
         in channel_open'
              \<lparr>req_url = options_url s1,
               req_client = Undefined,
               req_data = [(''client'', options_id s1), (''user'', options_user s1),
                           (''messages'', JArr (map JObj messages))],
               req_timeout = Undefined,
               req_messages = messages\<rparr> s1))"

definition reopen' :: "obj list \<Rightarrow> client' \<Rightarrow> client'" where
  "reopen' messages s =
     setTimeout (ReopenWith messages) (duration (backoff' s))
       (s\<lparr>backoff' := duration_next (backoff' s)\<rparr>)"

definition connect' :: "client' \<Rightarrow> client' completion" where
  "connect' s =
     (if connected' s \<or> loading' s then (None, s)
      else
        (let err = (if \<not> truthy (options_user s) then Some (js_Error ''User is undefined.'')
                    else if \<not> truthy (options_id s) then Some (js_Error ''Client id is undefined.'')
                    else None)
         in case err of
              Some e \<Rightarrow> emit' ''error'' [e] s
            | None \<Rightarrow>
                (let s1 = s\<lparr>disabled' := False\<rparr>;
                     s2 = s1\<lparr>drain_listeners := drain_listeners s1 + 1\<rparr>
                 in (None, open' [] s2))))"

definition disconnect' :: "client' \<Rightarrow> client' completion" where
  "disconnect' s =
     (let was_connected = connected' s;
          s1 = s\<lparr>disabled' := True, connected' := False, drain_listeners := 0\<rparr>;
          s2 = (case request' s1 of Some rid \<Rightarrow> channel_close' rid s1 | None \<Rightarrow> s1)
      in if was_connected then emit' ''disconnected'' [] s2 else (None, s2))"

definition onMessage' :: "obj \<Rightarrow> client' \<Rightarrow> client' completion" where
  "onMessage' message =
     andThen (emit' ''message'' [JObj message])
       (\<lambda>s. if js_get message ''type'' = JStr ''ack''
             then emit' (''ack:'' @ js_string (js_get message ''id'')) [JObj message] s
             else
               andThen (emit' ''data'' [js_get message ''data''])
                 (returns (\<lambda>s. s\<lparr>multiplexer' :=
                    mux_add [[(''type'', JStr ''ack''), (''id'', js_get message ''id''),
                              (''client'', options_id s), (''sender'', options_user s),
                              (''recipient'', JStr ''server'')]] (multiplexer' s)\<rparr>))
                 s)"

definition onRequestSuccess' :: "response \<Rightarrow> client' \<Rightarrow> client' completion" where
  "onRequestSuccess' res =
     andThen (returns (\<lambda>s. s\<lparr>backoff' := reset (backoff' s)\<rparr>))
    (andThen (\<lambda>s. if \<not> connected' s then emit' ''connected'' [] (s\<lparr>connected' := True\<rparr>)
                   else (None, s))
    (andThen (forEach onMessage' (res_messages res))
       (returns (open' []))))"

definition onRequestError' :: "obj list \<Rightarrow> obj \<Rightarrow> client' \<Rightarrow> client' completion" where
  "onRequestError' messages err =
     andThen (emit' ''error'' [JObj err])
    (andThen (\<lambda>s. if connected' s \<and> attempts (backoff' s) > options_disconnectedAfter s
                   then emit' ''disconnected'' [] (s\<lparr>connected' := False\<rparr>)
                   else (None, s))
       (returns (reopen' messages)))"

definition onDrain' :: "obj list \<Rightarrow> client' \<Rightarrow> client'" where
  "onDrain' messages s =
     open' messages (case request' s of Some rid \<Rightarrow> channel_close' rid s | None \<Rightarrow> s)"

definition fire' :: "nat \<Rightarrow> client' \<Rightarrow> client' completion" where
  "fire' tid s =
     (case map_of (timers s) tid of
        None \<Rightarrow> (None, s)
      | Some (d, t) \<Rightarrow>
          (let s1 = clearTimeout tid s
           in case t of
                Validation cb err \<Rightarrow> call tid cb err s1
              | AckTimeout ev cb \<Rightarrow>
                  call tid cb (js_Error ''Delivery timeout.'')
                    (s1\<lparr>callbacks := off' ev tid (callbacks s1)\<rparr>)
              | Reopen \<Rightarrow> (None, s1)
              | ReopenWith messages \<Rightarrow> (None, open' messages s1)))"

definition new_Client' :: "jsval \<Rightarrow> jsval \<Rightarrow> string \<Rightarrow> nat \<Rightarrow> nat \<Rightarrow> backoff \<Rightarrow> multiplexer \<Rightarrow> client'" where
  "new_Client' cid user url disconnectedAfter ackTimeout b m =
     \<lparr>timers = [], next_timer = 0, calls = [], emitted = [], requests = [], next_request = 0,
      uid_counter = 0,
      options_id = cid, options_user = user, options_url = url,
      options_disconnectedAfter = disconnectedAfter, options_ackTimeout = ackTimeout,
      connected' = False, disabled' = True, loading' = False, request' = None,
      backoff' = b\<lparr>attempts := 0\<rparr>, multiplexer' = m\<lparr>buffer := []\<rparr>,
      drain_listeners = 0, callbacks = []\<rparr>"

text \<open>The events of \<open>step\<close>, for this controller; a drain notifies every
  subscribed \<open>onDrain\<close> with the same batch.\<close>

fun step' :: "event \<Rightarrow> client' \<Rightarrow> client'" where
  "step' Connect s = snd (connect' s)"
| "step' Disconnect s = snd (disconnect' s)"
| "step' (Send options callback) s = send' options callback s"
| "step' (On ev h) s = s\<lparr>callbacks := callbacks s @ [(ev, Handler' h)]\<rparr>"
| "step' Drain s =
     (if started (multiplexer' s) \<and> buffer (multiplexer' s) \<noteq> []
      then (onDrain' (buffer (multiplexer' s)) ^^ drain_listeners s)
             (s\<lparr>multiplexer' := mux_reset (multiplexer' s)\<rparr>)
      else s)"
| "step' (Fire tid) s = snd (fire' tid s)"
| "step' (Succeed rid res close_first) s =
     (case map_of (requests s) rid of
        None \<Rightarrow> s
      | Some a \<Rightarrow>
          if close_first then snd (onRequestSuccess' res (channel_close' rid s))
          else channel_close' rid (snd (onRequestSuccess' res s)))"
| "step' (Fail rid err close_first) s =
     (case map_of (requests s) rid of
        None \<Rightarrow> s
      | Some a \<Rightarrow>
          if close_first then snd (onRequestError' (req_messages a) err (channel_close' rid s))
          else channel_close' rid (snd (onRequestError' (req_messages a) err s)))"

definition run' :: "event list \<Rightarrow> client' \<Rightarrow> client'" where
  "run' es s = fold step' es s"

section \<open>Notions the theorems use\<close>

subsection \<open>Fields a call leaves alone\<close>

text \<open>
  \<open>kept s s'\<close>: from \<open>s\<close> to \<open>s'\<close> the session, the request bookkeeping, the
  backoff and the options are as they were. \<open>untouched\<close> adds the record of callback
  calls and the multiplexer. \<open>kept'\<close> is the like for \<^verbatim>\<open>Client.js\<close>.
\<close>

definition kept :: "client \<Rightarrow> client \<Rightarrow> bool" where
  "kept s s' \<longleftrightarrow>
     requests s' = requests s \<and> next_request s' = next_request s \<and>
     uid_counter s' = uid_counter s \<and> opt_url s' = opt_url s \<and> opt_data s' = opt_data s \<and>
     opt_ackTimeout s' = opt_ackTimeout s \<and> opt_responseTimeout s' = opt_responseTimeout s \<and>
     client_id s' = client_id s \<and> connected s' = connected s \<and> disabled s' = disabled s \<and>
     loading s' = loading s \<and> reopening s' = reopening s \<and> request s' = request s \<and>
     backoff s' = backoff s"

definition untouched :: "client \<Rightarrow> client \<Rightarrow> bool" where
  "untouched s s' \<longleftrightarrow> kept s s' \<and> calls s' = calls s \<and> multiplexer s' = multiplexer s"

definition kept' :: "client' \<Rightarrow> client' \<Rightarrow> bool" where
  "kept' s s' \<longleftrightarrow>
     requests s' = requests s \<and> next_request s' = next_request s \<and> next_timer s' = next_timer s \<and>
     uid_counter s' = uid_counter s \<and> options_id s' = options_id s \<and>
     options_user s' = options_user s \<and> options_url s' = options_url s \<and>
     options_disconnectedAfter s' = options_disconnectedAfter s \<and>
     options_ackTimeout s' = options_ackTimeout s \<and> connected' s' = connected' s \<and>
     disabled' s' = disabled' s \<and> loading' s' = loading' s \<and> request' s' = request' s \<and>
     backoff' s' = backoff' s \<and> multiplexer' s' = multiplexer' s \<and>
     drain_listeners s' = drain_listeners s"

definition same_backoff :: "client \<Rightarrow> client \<Rightarrow> bool" where
  "same_backoff s s' = (backoff s' = backoff s)"

definition same_backoff' :: "client' \<Rightarrow> client' \<Rightarrow> bool" where
  "same_backoff' s s' = (backoff' s' = backoff' s)"

text \<open>
  \<open>preserves R f\<close>: whether the call \<open>f\<close> returns or throws, the state it leaves is
  related by \<open>R\<close> to the state it started in. For a reflexive and transitive \<open>R\<close>
  this carries through \<open>andThen\<close> and \<open>forEach\<close>.
\<close>

definition preserves :: "('s \<Rightarrow> 's \<Rightarrow> bool) \<Rightarrow> ('s \<Rightarrow> 's completion) \<Rightarrow> bool" where
  "preserves R f = (\<forall>s. R s (snd (f s)))"

definition preorder :: "('s \<Rightarrow> 's \<Rightarrow> bool) \<Rightarrow> bool" where
  "preorder R = ((\<forall>s. R s s) \<and> (\<forall>a b c. R a b \<longrightarrow> R b c \<longrightarrow> R a c))"

subsection \<open>Handlers of \<open>error\<close> that return\<close>

text \<open>\<open>quiet s\<close>: no handler registered on \<open>error\<close> of \<open>out\<close> throws, whatever it
  is called with.\<close>

definition quiet_listeners :: "(string \<times> out_listener) list \<Rightarrow> bool" where
  "quiet_listeners ls = (\<forall>(e, l) \<in> set ls. e = ''error'' \<longrightarrow>
     (case l of Handler h \<Rightarrow> \<forall>args. h args = None | AckDeferred m cb \<Rightarrow> True))"

definition quiet :: "client \<Rightarrow> bool" where
  "quiet s = quiet_listeners (out_emitter s)"

subsection \<open>Events and timers of a call\<close>

text \<open>\<open>emits P s s'\<close>: from \<open>s\<close> to \<open>s'\<close> events were only added, all of them with
  names in \<open>P\<close>. \<open>since s s'\<close> are the events added.\<close>

definition emits :: "string set \<Rightarrow> 'a world_scheme \<Rightarrow> 'a world_scheme \<Rightarrow> bool" where
  "emits P s s' = (\<exists>E. emitted s' = emitted s @ E \<and> (\<forall>x \<in> set E. fst x \<in> P))"

definition since :: "'a world_scheme \<Rightarrow> 'a world_scheme \<Rightarrow> (string \<times> jsval list) list" where
  "since s s' = drop (length (emitted s)) (emitted s')"

definition id_events :: "string \<times> jsval list \<Rightarrow> bool" where
  "id_events x = (fst x = ''connected'' \<or> fst x = ''set:id'')"




definition legacy_failure_rel :: "client' \<Rightarrow> client' \<Rightarrow> bool" where
  "legacy_failure_rel t t' =
     (disabled' t' = disabled' t \<and> backoff' t' = backoff' t \<and> emits {''error'', ''disconnected''} t t')"

subsection \<open>Messages\<close>

text \<open>The ack \<open>onMessage\<close> of \<^verbatim>\<open>part_000\<close> schedules for a message.\<close>

definition ack_for :: "obj \<Rightarrow> obj" where
  "ack_for message = [(''type'', JStr ''ack''), (''id'', js_get message ''id'')]"

text \<open>
  The options \<open>send\<close> does not reject: in \<^verbatim>\<open>part_000\<close>, \<open>data\<close> is truthy or the
  type is given and is not \<open>data\<close>; in \<^verbatim>\<open>Client.js\<close>, the type is not (given as)
  \<open>user\<close>, or \<open>recipient\<close> and \<open>data\<close> are truthy. \<open>stamped n options\<close> is the
  \<open>id\<close> of \<open>{id: String(n), ...options}\<close>.
\<close>

definition passes :: "obj \<Rightarrow> bool" where
  "passes options \<longleftrightarrow>
     truthy (js_get options ''data'')
     \<or> (truthy (js_get options ''type'') \<and> js_get options ''type'' \<noteq> JStr ''data'')"

definition passes' :: "obj \<Rightarrow> bool" where
  "passes' options \<longleftrightarrow>
     js_get options ''type'' \<noteq> JStr ''user''
     \<or> (truthy (js_get options ''recipient'') \<and> truthy (js_get options ''data''))"

definition stamped :: "nat \<Rightarrow> obj \<Rightarrow> jsval" where
  "stamped n options = (case map_of (rev options) ''id'' of None \<Rightarrow> JStr (show_nat n) | Some v \<Rightarrow> v)"

subsection \<open>Example clients, handlers and responses\<close>

text \<open>A handler that throws a string; a fresh client of each controller with the
  defaults of its source; a response that assigns the id \<open>X\<close>, without and with a
  data message.\<close>

definition throws :: "string \<Rightarrow> handler" where
  "throws msg args = Some (JStr msg)"

definition client0 :: client where
  "client0 = new_Client Undefined ''/lpio'' [] 1000 25000
     \<lparr>bms = 100, bmax = 10000, bfactor = 2, attempts = 0\<rparr> \<lparr>buffer = [], started = True\<rparr>"

definition client0' :: client' where
  "client0' = new_Client' (JStr ''c1'') (JStr ''u1'') ''/lpio'' 5 10000
     \<lparr>bms = 100, bmax = 10000, bfactor = 2, attempts = 0\<rparr> \<lparr>buffer = [], started = True\<rparr>"

definition assigned :: response where
  "assigned = \<lparr>res_set = JObj [(''id'', JStr ''X'')], res_messages = []\<rparr>"

definition greeting :: response where
  "greeting = \<lparr>res_set = JObj [(''id'', JStr ''X'')],
            res_messages = [[(''type'', JStr ''data''), (''data'', JStr ''hi''), (''id'', JStr ''m1'')]]\<rparr>"

subsection \<open>Requests in flight\<close>

text \<open>
  \<open>one_request s\<close>: the requests in flight are the one request the client holds a
  handle of, if it holds one, and none otherwise; and \<open>loading\<close> is set exactly
  while the client holds a handle. \<open>one_request_rel s s'\<close>: if \<open>s\<close> is such a
  state, so is \<open>s'\<close>. \<open>one_request'\<close> and \<open>one_request_rel'\<close> are the like for
  \<^verbatim>\<open>Client.js\<close>.
\<close>

definition one_request :: "client \<Rightarrow> bool" where
  "one_request s \<longleftrightarrow>
     map fst (requests s) = (case request s of None \<Rightarrow> [] | Some rid \<Rightarrow> [rid])
     \<and> (loading s \<longleftrightarrow> request s \<noteq> None)"

definition one_request_rel :: "client \<Rightarrow> client \<Rightarrow> bool" where
  "one_request_rel s s' = (one_request s \<longrightarrow> one_request s')"

definition one_request' :: "client' \<Rightarrow> bool" where
  "one_request' s \<longleftrightarrow>
     map fst (requests s) = (case request' s of None \<Rightarrow> [] | Some rid \<Rightarrow> [rid])
     \<and> (loading' s \<longleftrightarrow> request' s \<noteq> None)"

definition one_request_rel' :: "client' \<Rightarrow> client' \<Rightarrow> bool" where
  "one_request_rel' s s' = (one_request' s \<longrightarrow> one_request' s')"

subsection \<open>Ack waiters\<close>

text \<open>
  An ack waiter is the pair \<open>send\<close> registers for a callback: the listener \<open>onAck\<close>
  on \<open>ack:<id>\<close> and the timeout timer; both carry the timer's id.
  \<open>waiters_ok L T C N\<close>, for the ack listeners \<open>L\<close>, the pending timers \<open>T\<close>, the
  callback calls made so far \<open>C\<close> and the next timer id \<open>N\<close>: timer ids are below
  \<open>N\<close> and pending at most once; no two listeners share an id; every listener has
  its timeout pending and every pending timeout has its listener; and no
  registration has called its callback twice, or has called it and still has a
  timer pending. \<open>waiters_inv\<close> is this for a client of \<^verbatim>\<open>part_000\<close>, whose ack
  listeners are those of \<open>in\<close>; \<open>waiters_inv'\<close> for a client of \<^verbatim>\<open>Client.js\<close>,
  whose ack listeners \<open>acks_of\<close> picks from the client's own listeners.
\<close>

definition is_ack_timeout :: "timer \<Rightarrow> bool" where
  "is_ack_timeout t = (case t of AckTimeout ev cb \<Rightarrow> True | _ \<Rightarrow> False)"

definition waiters_ok ::
  "(string \<times> nat \<times> callback) list \<Rightarrow> (nat \<times> nat \<times> timer) list \<Rightarrow> (nat \<times> jsval) list \<Rightarrow> nat \<Rightarrow> bool" where
  "waiters_ok L T C N \<longleftrightarrow>
     distinct (map fst T) \<and> (\<forall>x \<in> set T. fst x < N)
   \<and> distinct (map (\<lambda>l. fst (snd l)) L)
   \<and> (\<forall>l \<in> set L. \<exists>d. (fst (snd l), d, AckTimeout (fst l) (snd (snd l))) \<in> set T)
   \<and> (\<forall>x \<in> set T. \<forall>ev cb. snd (snd x) = AckTimeout ev cb \<longrightarrow> (ev, fst x, cb) \<in> set L)
   \<and> distinct (map fst C) \<and> (\<forall>c \<in> set C. fst c < N \<and> fst c \<notin> fst ` set T)"

definition waiters_inv :: "client \<Rightarrow> bool" where
  "waiters_inv s = waiters_ok (in_emitter s) (timers s) (calls s) (next_timer s)"

definition waiters_rel :: "client \<Rightarrow> client \<Rightarrow> bool" where
  "waiters_rel s s' = (waiters_inv s \<longrightarrow> waiters_inv s')"

fun acks_of :: "(string \<times> listener') list \<Rightarrow> (string \<times> nat \<times> callback) list" where
  "acks_of [] = []"
| "acks_of ((e, Handler' h) # ls) = acks_of ls"
| "acks_of ((e, OnAck' tid cb) # ls) = (e, tid, cb) # acks_of ls"

definition waiters_inv' :: "client' \<Rightarrow> bool" where
  "waiters_inv' s = waiters_ok (acks_of (callbacks s)) (timers s) (calls s) (next_timer s)"

definition waiters_rel' :: "client' \<Rightarrow> client' \<Rightarrow> bool" where
  "waiters_rel' s s' = (waiters_inv' s \<longrightarrow> waiters_inv' s')"

text \<open>
  \<open>called tid w\<close>: the arguments of the calls the registration \<open>tid\<close> has made of its
  callback, in order. \<open>armed tid w\<close>: the timer \<open>tid\<close> is pending.
  \<open>waiting ev tid cb s\<close>: the waiter \<open>tid\<close> with callback \<open>cb\<close> listens on \<open>ev\<close>;
  \<open>listening tid s\<close>: the waiter \<open>tid\<close> listens on some event.
\<close>

definition called :: "nat \<Rightarrow> 'a world_scheme \<Rightarrow> jsval list" where
  "called tid w = map snd (filter (\<lambda>c. fst c = tid) (calls w))"

definition armed :: "nat \<Rightarrow> 'a world_scheme \<Rightarrow> bool" where
  "armed tid w = (map_of (timers w) tid \<noteq> None)"

definition waiting :: "string \<Rightarrow> nat \<Rightarrow> callback \<Rightarrow> client \<Rightarrow> bool" where
  "waiting ev tid cb s \<longleftrightarrow> (ev, tid, cb) \<in> set (in_emitter s)"

definition listening :: "nat \<Rightarrow> client \<Rightarrow> bool" where
  "listening tid s \<longleftrightarrow> (\<exists>l \<in> set (in_emitter s). fst (snd l) = tid)"

definition waiting' :: "string \<Rightarrow> nat \<Rightarrow> callback \<Rightarrow> client' \<Rightarrow> bool" where
  "waiting' ev tid cb s \<longleftrightarrow> (ev, tid, cb) \<in> set (acks_of (callbacks s))"

definition listening' :: "nat \<Rightarrow> client' \<Rightarrow> bool" where
  "listening' tid s \<longleftrightarrow> (\<exists>l \<in> set (acks_of (callbacks s)). fst (snd l) = tid)"

text \<open>An example: a client connects, is assigned its id, and sends a message with a
  callback; \<open>acked\<close> is the response that carries the ack of that message.\<close>

definition acked :: response where
  "acked = \<lparr>res_set = JObj [], res_messages = [[(''type'', JStr ''ack''), (''id'', JStr ''0'')]]\<rparr>"

definition sent :: "event list" where
  "sent = [Connect, Succeed 0 assigned True,
           Send [(''type'', JStr ''user''), (''recipient'', JStr ''u2''), (''data'', JStr ''a'')] (Some noop)]"

subsection \<open>The backoff between a success and the next failure\<close>


definition rested :: "backoff \<Rightarrow> backoff \<Rightarrow> bool" where
  "rested b b' \<longleftrightarrow> b' = b \<or> b' = reset b"





section \<open>Theorems\<close>

subsection \<open>C1: \<open>open\<close> puts the messages back while disabled or loading\<close>

text \<open>
  C1. A call of \<open>open(messages)\<close> while the controller is disabled or a request is
  loading changes nothing but the multiplexer's buffer, to which the messages are
  appended as they are: \<open>loading\<close>, the request handle, the requests in flight and
  every other field stay as they were, and no request is issued. This holds for the
  \<open>open\<close> of \<^verbatim>\<open>part_000\<close> and for the \<open>open\<close> of \<^verbatim>\<open>Client.js\<close>.
\<close>

theorem open_guard_requeues:
  "(disabled s \<or> loading s \<longrightarrow>
      open messages s = s\<lparr>multiplexer := (multiplexer s)\<lparr>buffer := buffer (multiplexer s) @ messages\<rparr>\<rparr>)
   \<and> (disabled' t \<or> loading' t \<longrightarrow>
      open' messages t = t\<lparr>multiplexer' := (multiplexer' t)\<lparr>buffer := buffer (multiplexer' t) @ messages\<rparr>\<rparr>)"
  by (simp add: open_def open'_def mux_add_def)

theorem open_guard_requeues_witness:
  "disabled (new_Client Undefined ''/lpio'' [] 1000 25000 \<lparr>bms = 100, bmax = 10000, bfactor = 2, attempts = 0\<rparr>
              \<lparr>buffer = [], started = True\<rparr>)
   \<and> buffer (multiplexer (open [[(''id'', JStr ''7''), (''type'', JStr ''data'')]]
        (new_Client Undefined ''/lpio'' [] 1000 25000 \<lparr>bms = 100, bmax = 10000, bfactor = 2, attempts = 0\<rparr>
              \<lparr>buffer = [], started = True\<rparr>)))
       = [[(''id'', JStr ''7''), (''type'', JStr ''data'')]]
   \<and> requests (open [[(''id'', JStr ''7''), (''type'', JStr ''data'')]]
        (new_Client Undefined ''/lpio'' [] 1000 25000 \<lparr>bms = 100, bmax = 10000, bfactor = 2, attempts = 0\<rparr>
              \<lparr>buffer = [], started = True\<rparr>)) = []
   \<and> disabled' (new_Client' (JStr ''c'') (JStr ''u'') ''/lpio'' 5 10000
              \<lparr>bms = 100, bmax = 10000, bfactor = 2, attempts = 0\<rparr> \<lparr>buffer = [], started = True\<rparr>)
   \<and> buffer (multiplexer' (open' [[(''id'', JStr ''7''), (''type'', JStr ''data'')]]
        (new_Client' (JStr ''c'') (JStr ''u'') ''/lpio'' 5 10000
              \<lparr>bms = 100, bmax = 10000, bfactor = 2, attempts = 0\<rparr> \<lparr>buffer = [], started = True\<rparr>)))
       = [[(''id'', JStr ''7''), (''type'', JStr ''data'')]]"
  using open_guard_requeues
    [of "new_Client Undefined ''/lpio'' [] 1000 25000 \<lparr>bms = 100, bmax = 10000, bfactor = 2, attempts = 0\<rparr>
              \<lparr>buffer = [], started = True\<rparr>"
        "[[(''id'', JStr ''7''), (''type'', JStr ''data'')]]"
        "new_Client' (JStr ''c'') (JStr ''u'') ''/lpio'' 5 10000
              \<lparr>bms = 100, bmax = 10000, bfactor = 2, attempts = 0\<rparr> \<lparr>buffer = [], started = True\<rparr>"]
  by (simp add: new_Client_def new_Client'_def)

subsection \<open>What an emission changes\<close>

lemma kept_refl: "kept s s"
  by (simp add: kept_def)

lemma kept_trans: "kept a b \<Longrightarrow> kept b c \<Longrightarrow> kept a c"
  by (simp add: kept_def)

lemma untouched_kept: "untouched s s' \<Longrightarrow> kept s s'"
  by (simp add: untouched_def)

lemma untouched_refl: "untouched s s"
  by (simp add: untouched_def kept_def)

lemma untouched_trans: "untouched a b \<Longrightarrow> untouched b c \<Longrightarrow> untouched a c"
  by (simp add: untouched_def kept_def)

lemma subscribeAck_untouched: "untouched s (subscribeAck m cb s)"
  by (simp add: untouched_def kept_def subscribeAck_def setTimeout_def Let_def)

lemma subscribeAck_emitted:
  "emitted (subscribeAck m cb s) = emitted s" "out_emitter (subscribeAck m cb s) = out_emitter s"
  by (simp_all add: subscribeAck_def setTimeout_def Let_def)

lemma out_dispatch_untouched:
  "out_dispatch ls ev args s = (r, ls', s') \<Longrightarrow>
     untouched s s' \<and> emitted s' = emitted s \<and> out_emitter s' = out_emitter s \<and> set ls' \<subseteq> set ls"
proof (induction ls arbitrary: s r ls' s')
  case Nil
  then show ?case by (simp add: untouched_refl)
next
  case (Cons a ls)
  obtain e l where a: "a = (e, l)" by (cases a)
  show ?case
  proof (cases "e = ev")
    case False
    then obtain ls1 where "out_dispatch ls ev args s = (r, ls1, s')" and "ls' = a # ls1"
      using Cons.prems a by (auto split: prod.splits)
    with Cons.IH[of s r ls1 s'] show ?thesis by auto
  next
    case True
    show ?thesis
    proof (cases l)
      case (Handler h)
      show ?thesis
      proof (cases "h args")
        case None
        then obtain ls1 where "out_dispatch ls ev args s = (r, ls1, s')" and "ls' = a # ls1"
          using Cons.prems a True Handler by (auto split: prod.splits)
        with Cons.IH[of s r ls1 s'] show ?thesis by auto
      next
        case (Some x)
        then show ?thesis using Cons.prems a True Handler by (auto simp: untouched_refl)
      qed
    next
      case (AckDeferred m cb)
      with Cons.prems a True
      have "out_dispatch ls ev args (subscribeAck m cb s) = (r, ls', s')" by simp
      from Cons.IH[OF this] show ?thesis
        using untouched_trans[OF subscribeAck_untouched] by (auto simp: subscribeAck_emitted)
    qed
  qed
qed

text \<open>The emission to \<open>out\<close>: one event more on the record.\<close>

lemma out_emit_effect:
  assumes "out_emit ev args s = (r, s')"
  shows "untouched s s'" and "emitted s' = emitted s @ [(ev, args)]"
    and "set (out_emitter s') \<subseteq> set (out_emitter s)"
proof -
  obtain ls' s1 where d: "out_dispatch (out_emitter s) ev args (s\<lparr>emitted := emitted s @ [(ev, args)]\<rparr>) = (r, ls', s1)"
    and s': "s' = s1\<lparr>out_emitter := ls'\<rparr>"
    using assms unfolding out_emit_def by (auto split: prod.splits)
  note f = out_dispatch_untouched[OF d]
  show "untouched s s'" using f s' by (simp add: untouched_def kept_def)
  show "emitted s' = emitted s @ [(ev, args)]" using f s' by simp
  show "set (out_emitter s') \<subseteq> set (out_emitter s)" using f s' by simp
qed

text \<open>The guarded emission: the event, and the \<open>error\<close> event when a handler threw.\<close>

lemma emit_effect:
  assumes "emit ev args s = (r, s')"
  shows "untouched s s'"
    and "emitted s' = emitted s @ [(ev, args)] \<or> (\<exists>e. emitted s' = emitted s @ [(ev, args), (''error'', [e])])"
    and "set (out_emitter s') \<subseteq> set (out_emitter s)"
proof -
  obtain r1 s1 where o: "out_emit ev args s = (r1, s1)" by (cases "out_emit ev args s")
  note f1 = out_emit_effect[OF o]
  have "untouched s s' \<and> (emitted s' = emitted s @ [(ev, args)] \<or> (\<exists>e. emitted s' = emitted s @ [(ev, args), (''error'', [e])]))
      \<and> set (out_emitter s') \<subseteq> set (out_emitter s)"
  proof (cases r1)
    case None
    with o assms have "s' = s1" by (simp add: emit_def)
    with f1 show ?thesis by simp
  next
    case (Some e)
    with o assms have e2: "out_emit ''error'' [e] s1 = (r, s')" by (simp add: emit_def)
    note f2 = out_emit_effect[OF e2]
    from f1 f2 show ?thesis by (auto intro: untouched_trans)
  qed
  then show "untouched s s'"
    and "emitted s' = emitted s @ [(ev, args)] \<or> (\<exists>e. emitted s' = emitted s @ [(ev, args), (''error'', [e])])"
    and "set (out_emitter s') \<subseteq> set (out_emitter s)" by simp_all
qed

subsection \<open>Handlers of \<open>error\<close> that return\<close>

lemma quiet_listeners_dispatch:
  "quiet_listeners ls \<Longrightarrow> out_dispatch ls ''error'' args s = (r, ls', s') \<Longrightarrow> r = None"
proof (induction ls arbitrary: s r ls' s')
  case Nil
  then show ?case by simp
next
  case (Cons a ls)
  obtain e l where a: "a = (e, l)" by (cases a)
  have q: "quiet_listeners ls" using Cons.prems(1) by (auto simp: quiet_listeners_def)
  show ?case
  proof (cases l)
    case (Handler h)
    then show ?thesis using Cons.prems Cons.IH[OF q] a
      by (auto simp: quiet_listeners_def split: if_splits prod.splits option.splits)
  next
    case (AckDeferred m cb)
    then show ?thesis using Cons.prems Cons.IH[OF q] a
      by (auto split: if_splits prod.splits)
  qed
qed

lemma quiet_listeners_subset: "quiet_listeners ls \<Longrightarrow> set ls' \<subseteq> set ls \<Longrightarrow> quiet_listeners ls'"
  by (auto simp: quiet_listeners_def)

lemma out_emit_quiet:
  assumes "out_emit ev args s = (r, s')" and "quiet s"
  shows "quiet s'"
  using out_emit_effect(3)[OF assms(1)] assms(2)
  by (auto simp: quiet_def intro: quiet_listeners_subset)

lemma out_emit_error_quiet:
  assumes "out_emit ''error'' args s = (r, s')" and "quiet s"
  shows "r = None"
  using assms unfolding out_emit_def quiet_def
  by (auto split: prod.splits dest: quiet_listeners_dispatch)

lemma emit_quiet:
  assumes "emit ev args s = (r, s')" and "quiet s"
  shows "r = None" and "quiet s'"
proof -
  obtain r1 s1 where o: "out_emit ev args s = (r1, s1)" by (cases "out_emit ev args s")
  have q1: "quiet s1" by (rule out_emit_quiet[OF o assms(2)])
  have "r = None \<and> quiet s'"
  proof (cases r1)
    case None
    with o assms(1) q1 show ?thesis by (simp add: emit_def)
  next
    case (Some e)
    with o assms(1) have e2: "out_emit ''error'' [e] s1 = (r, s')" by (simp add: emit_def)
    show ?thesis using out_emit_error_quiet[OF e2 q1] out_emit_quiet[OF e2 q1] by simp
  qed
  then show "r = None" and "quiet s'" by simp_all
qed

lemma quiet_cong: "out_emitter s' = out_emitter s \<Longrightarrow> quiet s' = quiet s"
  by (simp add: quiet_def)

lemma emit_quiet_fst: "quiet s \<Longrightarrow> fst (emit ev args s) = None"
  using emit_quiet(1)[of ev args s] by (cases "emit ev args s") simp

lemma emit_quiet_snd: "quiet s \<Longrightarrow> quiet (snd (emit ev args s))"
  using emit_quiet(2)[of ev args s] by (cases "emit ev args s") simp

lemma emit_untouched: "untouched s (snd (emit ev args s))"
  using emit_effect(1)[of ev args s] by (cases "emit ev args s") simp

lemma emit_kept: "kept s (snd (emit ev args s))"
  using emit_untouched by (rule untouched_kept)

subsection \<open>What an ack event changes\<close>

lemma in_dispatch_effect:
  "in_dispatch ls ev s = (r, ls', s') \<Longrightarrow>
     kept s s' \<and> multiplexer s' = multiplexer s \<and> emitted s' = emitted s \<and>
     out_emitter s' = out_emitter s \<and> next_timer s' = next_timer s \<and> set ls' \<subseteq> set ls"
proof (induction ls arbitrary: s r ls' s')
  case Nil
  then show ?case by (simp add: kept_refl)
next
  case (Cons a ls)
  obtain e tid cb where a: "a = (e, tid, cb)" by (cases a)
  show ?case
  proof (cases "e = ev")
    case False
    then obtain ls1 where "in_dispatch ls ev s = (r, ls1, s')" and "ls' = a # ls1"
      using Cons.prems a by (auto split: prod.splits)
    with Cons.IH[of s r ls1 s'] show ?thesis by auto
  next
    case True
    define s1 where "s1 = snd (call tid cb Undefined (clearTimeout tid s))"
    have k1: "kept s s1 \<and> multiplexer s1 = multiplexer s \<and> emitted s1 = emitted s \<and>
       out_emitter s1 = out_emitter s \<and> next_timer s1 = next_timer s"
      by (simp add: s1_def call_def clearTimeout_def kept_def)
    show ?thesis
    proof (cases "cb Undefined")
      case None
      then have "in_dispatch ls ev s1 = (r, ls', s')"
        using Cons.prems a True by (simp add: s1_def call_def)
      from Cons.IH[OF this] k1 show ?thesis by (auto intro: kept_trans)
    next
      case (Some x)
      then have "s' = s1" "ls' = ls"
        using Cons.prems a True by (simp_all add: s1_def call_def)
      with k1 show ?thesis by auto
    qed
  qed
qed

lemma in_emit_effect:
  assumes "in_emit ev s = (r, s')"
  shows "kept s s'" and "multiplexer s' = multiplexer s" and "emitted s' = emitted s"
    and "out_emitter s' = out_emitter s" and "next_timer s' = next_timer s"
proof -
  obtain ls' s1 where d: "in_dispatch (in_emitter s) ev s = (r, ls', s1)"
    and s': "s' = s1\<lparr>in_emitter := ls'\<rparr>"
    using assms unfolding in_emit_def by (auto split: prod.splits)
  note f = in_dispatch_effect[OF d]
  show "kept s s'" using f s' by (simp add: kept_def)
  show "multiplexer s' = multiplexer s" "emitted s' = emitted s"
    "out_emitter s' = out_emitter s" "next_timer s' = next_timer s" using f s' by simp_all
qed

subsection \<open>C10: a data message without payload\<close>

text \<open>
  For an inbound message of type \<open>data\<close> whose \<open>data\<close> is absent or falsy,
  \<open>onMessage\<close> of \<^verbatim>\<open>part_000\<close> emits the \<open>message\<close> event and no \<open>data\<close> event
  (the only other event it can emit is the \<open>error\<close> that re-emits what a
  \<open>message\<close> handler threw). The ack for the message id is enqueued exactly when
  the call returns; it returns whenever no handler of \<open>error\<close> throws.
\<close>

lemma data_without_payload_acked:
  assumes "js_get m ''type'' = JStr ''data''" and "\<not> truthy (js_get m ''data'')"
    and "onMessage m s = (r, s')"
  shows "(emitted s' = emitted s @ [(''message'', [JObj m])]
           \<or> (\<exists>e. emitted s' = emitted s @ [(''message'', [JObj m]), (''error'', [e])]))
       \<and> (r = None \<longrightarrow> buffer (multiplexer s') = buffer (multiplexer s) @ [ack_for m])
       \<and> (r \<noteq> None \<longrightarrow> buffer (multiplexer s') = buffer (multiplexer s))
       \<and> (quiet s \<longrightarrow> r = None)"
proof -
  obtain r1 s1 where e: "emit ''message'' [JObj m] s = (r1, s1)"
    by (cases "emit ''message'' [JObj m] s")
  note f = emit_effect[OF e]
  have m1: "multiplexer s1 = multiplexer s" using f(1) by (simp add: untouched_def)
  show ?thesis
  proof (cases r1)
    case None
    with e assms have "r = None" and "s' = s1\<lparr>multiplexer := mux_add [ack_for m] (multiplexer s1)\<rparr>"
      by (simp_all add: onMessage_def andThen_def returns_def ack_for_def)
    with f(2) m1 show ?thesis by (simp add: mux_add_def)
  next
    case (Some x)
    with e assms have "r = Some x" and "s' = s1"
      by (simp_all add: onMessage_def andThen_def)
    with f(2) m1 emit_quiet(1)[OF e] Some show ?thesis by auto
  qed
qed

lemmas controller_defs =
  new_Client_def client0_def throws_def run_def
  out_emit_def emit_def in_emit_def subscribeAck_def send_def onRequestClose_def
  channel_open_def channel_close_def open_def onDisconnected_def onConnected_def connect_def
  disconnect_def reopen_def reopen_timer_def onMessage_def res_val_def onRequestSuccess_def
  onUnauthorized_def onRequestError_def onDrain_def onError_def fire_def
  andThen_def returns_def setTimeout_def clearTimeout_def call_def uid_def uid_next_def
  in_flight_def mux_add_def mux_reset_def mux_start_def mux_stop_def duration_def
  duration_next_def reset_def js_get_def js_member_def js_Error_def ack_for_def Let_def

text \<open>
  C10. The ack of a \<open>data\<close> message without payload can be lost. \<open>emit\<close>
  re-emits what a handler threw with \<open>this.out.emit('error', err)\<close> in its \<open>catch\<close>
  block, outside the \<open>try\<close>. With a \<open>message\<close> handler that throws \<open>x\<close> and an
  \<open>error\<close> handler that throws \<open>y\<close>, \<open>onMessage\<close> of the message
  \<open>{type: 'data', id: 'm1'}\<close> throws \<open>y\<close> after the events \<open>message\<close> and
  \<open>error\<close>: no \<open>data\<close> event is emitted and no ack is enqueued.
\<close>

theorem message_throw_skips_ack:
  "js_get [(''type'', JStr ''data''), (''id'', JStr ''m1'')] ''type'' = JStr ''data''
   \<and> \<not> truthy (js_get [(''type'', JStr ''data''), (''id'', JStr ''m1'')] ''data'')
   \<and> fst (onMessage [(''type'', JStr ''data''), (''id'', JStr ''m1'')]
        (run [On ''message'' (throws x), On ''error'' (throws y)] client0)) = Some (JStr y)
   \<and> emitted (snd (onMessage [(''type'', JStr ''data''), (''id'', JStr ''m1'')]
        (run [On ''message'' (throws x), On ''error'' (throws y)] client0)))
      = [(''message'', [JObj [(''type'', JStr ''data''), (''id'', JStr ''m1'')]]), (''error'', [JStr x])]
   \<and> buffer (multiplexer (snd (onMessage [(''type'', JStr ''data''), (''id'', JStr ''m1'')]
        (run [On ''message'' (throws x), On ''error'' (throws y)] client0)))) = []"
  by (simp add: controller_defs)

theorem message_throw_skips_ack_witness:
  "js_get [(''type'', JStr ''data''), (''id'', JStr ''m1'')] ''type'' = JStr ''data''
   \<and> \<not> truthy (js_get [(''type'', JStr ''data''), (''id'', JStr ''m1'')] ''data'')
   \<and> fst (onMessage [(''type'', JStr ''data''), (''id'', JStr ''m1'')]
        (run [On ''message'' (throws ''boom''), On ''error'' (throws ''again'')] client0)) = Some (JStr ''again'')
   \<and> emitted (snd (onMessage [(''type'', JStr ''data''), (''id'', JStr ''m1'')]
        (run [On ''message'' (throws ''boom''), On ''error'' (throws ''again'')] client0)))
      = [(''message'', [JObj [(''type'', JStr ''data''), (''id'', JStr ''m1'')]]), (''error'', [JStr ''boom''])]
   \<and> buffer (multiplexer (snd (onMessage [(''type'', JStr ''data''), (''id'', JStr ''m1'')]
        (run [On ''message'' (throws ''boom''), On ''error'' (throws ''again'')] client0)))) = []"
  using message_throw_skips_ack[of "''boom''" "''again''"] by simp

lemma data_without_payload_acked_example:
  "js_get [(''type'', JStr ''data''), (''id'', JStr ''m1'')] ''type'' = JStr ''data''
   \<and> \<not> truthy (js_get [(''type'', JStr ''data''), (''id'', JStr ''m1'')] ''data'')
   \<and> quiet client0
   \<and> emitted (snd (onMessage [(''type'', JStr ''data''), (''id'', JStr ''m1'')] client0))
       = [(''message'', [JObj [(''type'', JStr ''data''), (''id'', JStr ''m1'')]])]
   \<and> buffer (multiplexer (snd (onMessage [(''type'', JStr ''data''), (''id'', JStr ''m1'')] client0)))
       = [[(''type'', JStr ''ack''), (''id'', JStr ''m1'')]]"
  using data_without_payload_acked[of "[(''type'', JStr ''data''), (''id'', JStr ''m1'')]" client0
      "fst (onMessage [(''type'', JStr ''data''), (''id'', JStr ''m1'')] client0)"
      "snd (onMessage [(''type'', JStr ''data''), (''id'', JStr ''m1'')] client0)"]
  by (simp add: controller_defs quiet_def quiet_listeners_def)

subsection \<open>C8: the guarded emission\<close>

lemma onMessage_quiet:
  assumes "quiet s" and "js_get m ''type'' \<noteq> JStr ''ack''" and "onMessage m s = (r, s')"
  shows "r = None" and "buffer (multiplexer s') = buffer (multiplexer s) @ [ack_for m]" and "quiet s'"
proof -
  obtain r1 s1 where e1: "emit ''message'' [JObj m] s = (r1, s1)"
    by (cases "emit ''message'' [JObj m] s")
  have r1: "r1 = None" and q1: "quiet s1" using emit_quiet[OF e1 assms(1)] by simp_all
  have m1: "multiplexer s1 = multiplexer s" using emit_effect(1)[OF e1] by (simp add: untouched_def)
  define s2 where "s2 = (if js_get m ''type'' = JStr ''data'' \<and> truthy (js_get m ''data'')
                         then snd (emit ''data'' [js_get m ''data''] s1) else s1)"
  define r2 where "r2 = (if js_get m ''type'' = JStr ''data'' \<and> truthy (js_get m ''data'')
                         then fst (emit ''data'' [js_get m ''data''] s1) else None)"
  have r2: "r2 = None" and q2: "quiet s2" and m2: "multiplexer s2 = multiplexer s1"
    using emit_quiet_fst[OF q1, of "''data''" "[js_get m ''data'']"]
      emit_quiet_snd[OF q1, of "''data''" "[js_get m ''data'']"]
      emit_untouched[of s1 "''data''" "[js_get m ''data'']"] q1
    by (auto simp: r2_def s2_def untouched_def)
  have "onMessage m s = (None, s2\<lparr>multiplexer := mux_add [ack_for m] (multiplexer s2)\<rparr>)"
    using e1 r1 r2 assms(2)
    by (auto simp: onMessage_def andThen_def returns_def ack_for_def r2_def s2_def split: prod.splits)
  with assms(3) have r: "r = None" and s': "s' = s2\<lparr>multiplexer := mux_add [ack_for m] (multiplexer s2)\<rparr>"
    by simp_all
  show "r = None" by (rule r)
  show "buffer (multiplexer s') = buffer (multiplexer s) @ [ack_for m]"
    using s' m1 m2 by (simp add: mux_add_def)
  show "quiet s'" using s' q2 by (simp add: quiet_def)
qed

text \<open>
  What a handler throws during a guarded emission is caught and emitted as an
  \<open>error\<close> event, and the guarded emission completes as that second emission does:
  it throws only what a handler of \<open>error\<close> throws then. With handlers of
  \<open>error\<close> that return, no guarded emission throws, and \<open>onMessage\<close> returns and
  enqueues the ack of every message that is not an ack, whatever the handlers of
  \<open>message\<close> and \<open>data\<close> do.
\<close>

lemma guarded_emit_isolation:
  "(\<forall>e s1. out_emit ev args s = (Some e, s1) \<longrightarrow>
        emit ev args s = out_emit ''error'' [e] s1
      \<and> emitted (snd (emit ev args s)) = emitted s @ [(ev, args), (''error'', [e])])
   \<and> (\<forall>s1. out_emit ev args s = (None, s1) \<longrightarrow> emit ev args s = (None, s1))
   \<and> (quiet s \<longrightarrow> fst (emit ev args s) = None \<and> quiet (snd (emit ev args s)))
   \<and> (quiet s \<and> js_get m ''type'' \<noteq> JStr ''ack'' \<longrightarrow>
        fst (onMessage m s) = None
      \<and> buffer (multiplexer (snd (onMessage m s))) = buffer (multiplexer s) @ [ack_for m])"
proof (intro conjI allI impI)
  fix e s1 assume o: "out_emit ev args s = (Some e, s1)"
  show "emit ev args s = out_emit ''error'' [e] s1" using o by (simp add: emit_def)
  obtain r2 s2 where o2: "out_emit ''error'' [e] s1 = (r2, s2)" by (cases "out_emit ''error'' [e] s1")
  show "emitted (snd (emit ev args s)) = emitted s @ [(ev, args), (''error'', [e])]"
    using o o2 out_emit_effect(2)[OF o] out_emit_effect(2)[OF o2] by (simp add: emit_def)
next
  fix s1 assume "out_emit ev args s = (None, s1)"
  then show "emit ev args s = (None, s1)" by (simp add: emit_def)
next
  assume q: "quiet s"
  show "fst (emit ev args s) = None" using emit_quiet(1)[OF _ q] by (cases "emit ev args s") simp
  show "quiet (snd (emit ev args s))" using emit_quiet(2)[OF _ q] by (cases "emit ev args s") simp
next
  assume a: "quiet s \<and> js_get m ''type'' \<noteq> JStr ''ack''"
  show "fst (onMessage m s) = None"
    using onMessage_quiet(1)[of s m] a by (cases "onMessage m s") simp
  show "buffer (multiplexer (snd (onMessage m s))) = buffer (multiplexer s) @ [ack_for m]"
    using onMessage_quiet(2)[of s m] a by (cases "onMessage m s") simp
qed

lemma guarded_emit_isolation_example:
  "out_emit ''data'' [JStr ''hi''] (run [On ''data'' (throws ''boom'')] client0)
     = (Some (JStr ''boom''),
        (run [On ''data'' (throws ''boom'')] client0)\<lparr>emitted := [(''data'', [JStr ''hi''])]\<rparr>)
   \<and> quiet (run [On ''data'' (throws ''boom'')] client0)
   \<and> js_get [(''type'', JStr ''data''), (''data'', JStr ''hi''), (''id'', JStr ''m1'')] ''type'' \<noteq> JStr ''ack''
   \<and> emitted (snd (onMessage [(''type'', JStr ''data''), (''data'', JStr ''hi''), (''id'', JStr ''m1'')]
        (run [On ''data'' (throws ''boom'')] client0)))
      = [(''message'', [JObj [(''type'', JStr ''data''), (''data'', JStr ''hi''), (''id'', JStr ''m1'')]]),
         (''data'', [JStr ''hi'']), (''error'', [JStr ''boom''])]
   \<and> buffer (multiplexer (snd (onMessage [(''type'', JStr ''data''), (''data'', JStr ''hi''), (''id'', JStr ''m1'')]
        (run [On ''data'' (throws ''boom'')] client0))))
      = [[(''type'', JStr ''ack''), (''id'', JStr ''m1'')]]"
  using guarded_emit_isolation[of "''data''" "[JStr ''hi'']" "run [On ''data'' (throws ''boom'')] client0"
      "[(''type'', JStr ''data''), (''data'', JStr ''hi''), (''id'', JStr ''m1'')]"]
  by (simp add: controller_defs quiet_def quiet_listeners_def)

text \<open>
  C8. The guarded emission does not contain every exception of a handler. \<open>emit\<close>
  re-emits what a handler threw with \<open>this.out.emit('error', err)\<close> in its \<open>catch\<close>
  block, outside the \<open>try\<close>, so what a handler of \<open>error\<close> throws leaves \<open>emit\<close>.
  With a \<open>data\<close> handler that throws \<open>x\<close> and an \<open>error\<close> handler that throws
  \<open>y\<close>: the guarded emission of \<open>data\<close> throws \<open>y\<close>; \<open>onMessage\<close> of a data
  message throws \<open>y\<close> after the events \<open>message\<close>, \<open>data\<close> and \<open>error\<close>, and the
  ack of the message is not enqueued; and after a response that carries the
  message the client, connected, has no request in flight, is not loading, and
  has no timer pending and no ack to send.
\<close>

theorem error_handler_escapes_emit:
  "fst (emit ''data'' [JStr ''hi''] (run [On ''data'' (throws x), On ''error'' (throws y)] client0))
     = Some (JStr y)
   \<and> fst (onMessage [(''type'', JStr ''data''), (''data'', JStr ''hi''), (''id'', JStr ''m1'')]
        (run [On ''data'' (throws x), On ''error'' (throws y)] client0)) = Some (JStr y)
   \<and> emitted (snd (onMessage [(''type'', JStr ''data''), (''data'', JStr ''hi''), (''id'', JStr ''m1'')]
        (run [On ''data'' (throws x), On ''error'' (throws y)] client0)))
      = [(''message'', [JObj [(''type'', JStr ''data''), (''data'', JStr ''hi''), (''id'', JStr ''m1'')]]),
         (''data'', [JStr ''hi'']), (''error'', [JStr x])]
   \<and> buffer (multiplexer (snd (onMessage [(''type'', JStr ''data''), (''data'', JStr ''hi''), (''id'', JStr ''m1'')]
        (run [On ''data'' (throws x), On ''error'' (throws y)] client0)))) = []
   \<and> connected (run [On ''data'' (throws x), On ''error'' (throws y), Connect, Succeed 0 greeting True] client0)
   \<and> requests (run [On ''data'' (throws x), On ''error'' (throws y), Connect, Succeed 0 greeting True] client0) = []
   \<and> \<not> loading (run [On ''data'' (throws x), On ''error'' (throws y), Connect, Succeed 0 greeting True] client0)
   \<and> timers (run [On ''data'' (throws x), On ''error'' (throws y), Connect, Succeed 0 greeting True] client0) = []
   \<and> buffer (multiplexer (run [On ''data'' (throws x), On ''error'' (throws y), Connect, Succeed 0 greeting True] client0)) = []"
  by (simp add: controller_defs greeting_def)

theorem error_handler_escapes_emit_witness:
  "fst (emit ''data'' [JStr ''hi''] (run [On ''data'' (throws ''boom''), On ''error'' (throws ''again'')] client0))
     = Some (JStr ''again'')
   \<and> fst (onMessage [(''type'', JStr ''data''), (''data'', JStr ''hi''), (''id'', JStr ''m1'')]
        (run [On ''data'' (throws ''boom''), On ''error'' (throws ''again'')] client0)) = Some (JStr ''again'')
   \<and> buffer (multiplexer (snd (onMessage [(''type'', JStr ''data''), (''data'', JStr ''hi''), (''id'', JStr ''m1'')]
        (run [On ''data'' (throws ''boom''), On ''error'' (throws ''again'')] client0)))) = []
   \<and> requests (run [On ''data'' (throws ''boom''), On ''error'' (throws ''again''), Connect,
        Succeed 0 greeting True] client0) = []
   \<and> timers (run [On ''data'' (throws ''boom''), On ''error'' (throws ''again''), Connect,
        Succeed 0 greeting True] client0) = []"
  using error_handler_escapes_emit[of "''boom''" "''again''"] by simp

subsection \<open>Relations every step of a call keeps\<close>

lemma preservesD: "preserves R f \<Longrightarrow> f s = (r, s') \<Longrightarrow> R s s'"
  unfolding preserves_def by (metis snd_conv)

lemma preserves_andThen:
  assumes "preorder R" and "preserves R f" and "preserves R g"
  shows "preserves R (andThen f g)"
  unfolding preserves_def
proof
  fix s
  obtain r1 s1 where f: "f s = (r1, s1)" by (cases "f s")
  have 1: "R s s1" using preservesD[OF assms(2) f] .
  show "R s (snd (andThen f g s))"
  proof (cases r1)
    case None
    then have "andThen f g s = g s1" using f by (simp add: andThen_def)
    moreover have "R s1 (snd (g s1))" using assms(3) by (simp add: preserves_def)
    ultimately show ?thesis using 1 assms(1) unfolding preorder_def by metis
  next
    case (Some e)
    then show ?thesis using f 1 by (simp add: andThen_def)
  qed
qed

lemma preserves_returns: "(\<And>s. R s (h s)) \<Longrightarrow> preserves R (returns h)"
  by (simp add: preserves_def returns_def)

lemma preserves_forEach:
  assumes "preorder R" and "\<And>x. preserves R (f x)"
  shows "preserves R (forEach f xs)"
  unfolding preserves_def
proof
  fix s show "R s (snd (forEach f xs s))"
  proof (induction xs arbitrary: s)
    case Nil
    then show ?case using assms(1) by (simp add: preorder_def)
  next
    case (Cons x xs)
    obtain r1 s1 where f: "f x s = (r1, s1)" by (cases "f x s")
    have 1: "R s s1" using preservesD[OF assms(2) f] .
    show ?case
    proof (cases r1)
      case None
      then have "forEach f (x # xs) s = forEach f xs s1" using f by simp
      then show ?thesis using 1 Cons.IH[of s1] assms(1) unfolding preorder_def by metis
    next
      case (Some e)
      then show ?thesis using f 1 by simp
    qed
  qed
qed

lemma preserves_if:
  "preserves R f \<Longrightarrow> preserves R g \<Longrightarrow> preserves R (\<lambda>s. if c s then f s else g s)"
  by (simp add: preserves_def)

lemma preserves_skip: "preorder R \<Longrightarrow> preserves R (\<lambda>s. (None, s))"
  by (simp add: preserves_def preorder_def)

text \<open>The fields no emission and no message touch.\<close>

lemma preorder_kept: "preorder kept"
  by (simp add: preorder_def kept_def)

lemma emit_preserves_kept: "preserves kept (emit ev args)"
  by (simp add: preserves_def emit_kept)

lemma in_emit_preserves_kept: "preserves kept (in_emit ev)"
  unfolding preserves_def using in_emit_effect(1) by (metis prod.collapse)

lemma onMessage_preserves_kept: "preserves kept (onMessage m)"
  unfolding onMessage_def
  by (intro preserves_andThen preserves_if preserves_returns preserves_skip
      emit_preserves_kept in_emit_preserves_kept preorder_kept) (simp add: kept_def)

lemma forEach_onMessage_kept: "kept s (snd (forEach onMessage ms s))"
  using preserves_forEach[where f = onMessage, OF preorder_kept onMessage_preserves_kept]
  by (simp add: preserves_def)

subsection \<open>The events of a call\<close>

lemma preorder_emits: "preorder (emits P)"
  unfolding preorder_def emits_def by auto

lemma emits_mono: "emits P s s' \<Longrightarrow> P \<subseteq> Q \<Longrightarrow> emits Q s s'"
  unfolding emits_def by blast

lemma emits_same: "emitted s' = emitted s \<Longrightarrow> emits P s s'"
  by (simp add: emits_def)

lemma emit_emits: "emits {ev, ''error''} s (snd (emit ev args s))"
  using emit_effect(2)[of ev args s] by (cases "emit ev args s") (auto simp: emits_def)

lemma emit_preserves_emits: "ev \<in> P \<Longrightarrow> ''error'' \<in> P \<Longrightarrow> preserves (emits P) (emit ev args)"
  unfolding preserves_def using emit_emits emits_mono by blast

lemma in_emit_preserves_emits: "preserves (emits P) (in_emit ev)"
  unfolding preserves_def using in_emit_effect(3) by (metis emits_same prod.collapse)

lemma onMessage_preserves_emits:
  "preserves (emits {''message'', ''data'', ''error''}) (onMessage m)"
  unfolding onMessage_def
  by (intro preserves_andThen preserves_if preserves_returns preserves_skip
      emit_preserves_emits in_emit_preserves_emits preorder_emits) (simp_all add: emits_def)

lemma forEach_onMessage_emits:
  "emits {''message'', ''data'', ''error''} s (snd (forEach onMessage ms s))"
  using preserves_forEach[where f = onMessage, OF preorder_emits onMessage_preserves_emits]
  by (simp add: preserves_def)

lemma since_append: "emitted s' = emitted s @ E \<Longrightarrow> since s s' = E"
  by (simp add: since_def)

lemma emits_since:
  assumes "emits P s s'"
  shows "emitted s' = emitted s @ since s s'" and "\<forall>x \<in> set (since s s'). fst x \<in> P"
  using assms unfolding emits_def since_def by auto

lemma since_trans:
  assumes "emits P a b" and "emits Q b c"
  shows "since a c = since a b @ since b c"
  using assms unfolding emits_def since_def by auto

lemma filter_since_none:
  assumes "emits P s s'" and "\<And>x. fst x \<in> P \<Longrightarrow> \<not> p x"
  shows "filter p (since s s') = []"
  using emits_since(2)[OF assms(1)] assms(2) by (auto simp: filter_empty_conv)

lemma emit_quiet_eq: "quiet s \<Longrightarrow> emit ev args s = (None, snd (emit ev args s))"
  using emit_quiet_fst[of s ev args] by (simp add: prod_eq_iff)

lemma emit_events:
  "\<exists>E. emitted (snd (emit ev args s)) = emitted s @ (ev, args) # E \<and> (\<forall>x \<in> set E. fst x = ''error'')"
  using emit_effect(2)[of ev args s] by (cases "emit ev args s") auto

lemma onConnected_quiet:
  assumes "quiet s"
  shows "onConnected s = (None, snd (onConnected s))" and "quiet (snd (onConnected s))"
  using assms emit_quiet_eq[of "s\<lparr>connected := True\<rparr>" "''connected''" "[]"]
    emit_quiet_snd[of "s\<lparr>connected := True\<rparr>" "''connected''" "[]"]
  by (auto simp: onConnected_def quiet_def)

lemma onConnected_fields:
  "client_id (snd (onConnected s)) = client_id s"
  "backoff (snd (onConnected s)) = backoff s"
  "truthy (client_id s) \<Longrightarrow> connected (snd (onConnected s))"
  "connected s \<Longrightarrow> onConnected s = (None, s)"
  using emit_kept[of "s\<lparr>connected := True\<rparr>" "''connected''" "[]"]
  by (auto simp: onConnected_def kept_def)

lemma onConnected_events:
  assumes "truthy (client_id s)"
  shows "\<exists>E. emitted (snd (onConnected s)) =
            emitted s @ (if connected s then [] else [(''connected'', [])]) @ E
          \<and> (\<forall>x \<in> set E. fst x = ''error'')"
  using assms emit_events[of "''connected''" "[]" "s\<lparr>connected := True\<rparr>"]
  by (auto simp: onConnected_def)

lemma open_fields:
  "emitted (open ms s) = emitted s" "client_id (open ms s) = client_id s"
  "connected (open ms s) = connected s" "backoff (open ms s) = backoff s"
  "out_emitter (open ms s) = out_emitter s"
  by (simp_all add: open_def channel_open_def Let_def)

lemma truthy_member: "truthy (js_member v k) \<Longrightarrow> truthy v"
  by (cases v) (simp_all add: js_member_def)

text \<open>
  For a successful response whose \<open>set.id\<close> is truthy, handled while no handler
  of \<open>error\<close> throws: the id is adopted, \<open>connected\<close> is true afterwards, and of
  the events \<open>connected\<close> and \<open>set:id\<close> the response emits \<open>connected\<close> (only
  when the client was not connected) and then \<open>set:id\<close> with the id, once each.
\<close>

lemma set_id_after_connected:
  assumes "truthy (js_member (res_set res) ''id'')"
    and "quiet s" and "onRequestSuccess res s = (r, s')"
  shows "client_id s' = js_member (res_set res) ''id''
       \<and> connected s'
       \<and> filter id_events (since s s') =
           (if connected s then [] else [(''connected'', [])])
           @ [(''set:id'', [js_member (res_set res) ''id''])]"
proof -
  define X where "X = js_member (res_set res) ''id''"
  define s1 where "s1 = snd (emit ''success'' [res_val res] s)"
  have e1: "emit ''success'' [res_val res] s = (None, s1)"
    using emit_quiet_eq[OF assms(2)] by (simp add: s1_def)
  have q1: "quiet s1" using emit_quiet_snd[OF assms(2)] by (simp add: s1_def)
  have k1: "kept s s1" using emit_kept by (simp add: s1_def)
  obtain E1 where E1: "emitted s1 = emitted s @ (''success'', [res_val res]) # E1"
    "\<forall>x \<in> set E1. fst x = ''error''"
    using emit_events[of "''success''" "[res_val res]" s] by (auto simp: s1_def)
  define s2 where "s2 = s1\<lparr>backoff := reset (backoff s1), client_id := X\<rparr>"
  have q2: "quiet s2" using q1 by (simp add: s2_def quiet_def)
  have t2: "truthy (client_id s2)" using assms(1) by (simp add: s2_def X_def)
  have c2: "connected s2 = connected s" using k1 by (simp add: s2_def kept_def)
  define s3 where "s3 = snd (onConnected s2)"
  have e3: "onConnected s2 = (None, s3)" and q3: "quiet s3"
    using onConnected_quiet[OF q2] by (simp_all add: s3_def)
  have f3: "client_id s3 = X" "connected s3"
    using onConnected_fields(1,3)[of s2] t2 by (simp_all add: s3_def s2_def)
  obtain E3 where E3: "emitted s3 = emitted s2 @ (if connected s then [] else [(''connected'', [])]) @ E3"
    "\<forall>x \<in> set E3. fst x = ''error''"
    using onConnected_events[OF t2] c2 by (auto simp: s3_def)
  define s4 where "s4 = snd (emit ''set:id'' [X] s3)"
  have e4: "emit ''set:id'' [client_id s3] s3 = (None, s4)"
    using emit_quiet_eq[OF q3] f3 by (simp add: s4_def)
  have q4: "quiet s4" using emit_quiet_snd[OF q3] by (simp add: s4_def)
  have k4: "kept s3 s4" using emit_kept by (simp add: s4_def)
  have f4: "client_id s4 = X" "connected s4" using k4 f3 by (simp_all add: kept_def)
  obtain E4 where E4: "emitted s4 = emitted s3 @ (''set:id'', [X]) # E4"
    "\<forall>x \<in> set E4. fst x = ''error''"
    using emit_events[of "''set:id''" "[X]" s3] by (auto simp: s4_def)
  have e5: "onConnected s4 = (None, s4)" using onConnected_fields(4)[OF f4(2)] .
  obtain r6 s6 where e6: "forEach onMessage (res_messages res) s4 = (r6, s6)"
    by (cases "forEach onMessage (res_messages res) s4")
  have k6: "kept s4 s6" using forEach_onMessage_kept[of s4 "res_messages res"] e6 by simp
  have m6: "emits {''message'', ''data'', ''error''} s4 s6"
    using forEach_onMessage_emits[of s4 "res_messages res"] e6 by simp
  obtain E6 where E6: "emitted s6 = emitted s4 @ E6"
    "\<forall>x \<in> set E6. fst x \<in> {''message'', ''data'', ''error''}"
    using m6 unfolding emits_def by blast
  have f6: "client_id s6 = X" "connected s6" using k6 f4 by (simp_all add: kept_def)
  have fin: "client_id s' = X \<and> connected s' \<and> emitted s' = emitted s6"
  proof (cases r6)
    case None
    have "onRequestSuccess res s =
      (None, open (buffer (multiplexer s6))
         (s6\<lparr>multiplexer := mux_start (mux_reset (multiplexer s6))\<rparr>))"
      using e1 e3 e4 e5 e6 None assms(1) truthy_member[OF assms(1)]
      by (simp add: onRequestSuccess_def andThen_def returns_def s2_def X_def Let_def)
    with assms(3) f6 show ?thesis by (auto simp: open_fields)
  next
    case (Some e)
    have "onRequestSuccess res s = (Some e, s6)"
      using e1 e3 e4 e5 e6 Some assms(1) truthy_member[OF assms(1)]
      by (simp add: onRequestSuccess_def andThen_def returns_def s2_def X_def Let_def)
    with assms(3) f6 show ?thesis by auto
  qed
  have "emitted s' = emitted s @ ((''success'', [res_val res]) # E1)
      @ ((if connected s then [] else [(''connected'', [])]) @ E3) @ ((''set:id'', [X]) # E4) @ E6"
    using fin E1 E3 E4 E6 by (simp add: s2_def)
  then have "since s s' = ((''success'', [res_val res]) # E1)
      @ ((if connected s then [] else [(''connected'', [])]) @ E3) @ ((''set:id'', [X]) # E4) @ E6"
    by (rule since_append)
  moreover have "filter id_events E1 = []" "filter id_events E3 = []" "filter id_events E4 = []"
    "filter id_events E6 = []"
    using E1(2) E3(2) E4(2) E6(2) by (auto simp: filter_empty_conv id_events_def)
  ultimately have "filter id_events (since s s') =
      (if connected s then [] else [(''connected'', [])]) @ [(''set:id'', [X])]"
    by (simp add: id_events_def)
  with fin show ?thesis by (simp add: X_def)
qed

subsection \<open>Client.js: what an emission changes\<close>

lemma preorder_kept': "preorder kept'"
  by (simp add: preorder_def kept'_def)

lemma dispatch'_effect:
  "dispatch' ls ev args s = (r, ls', s') \<Longrightarrow>
     kept' s s' \<and> emitted s' = emitted s \<and> callbacks s' = callbacks s \<and> set ls' \<subseteq> set ls"
proof (induction ls arbitrary: s r ls' s')
  case Nil
  then show ?case by (simp add: kept'_def)
next
  case (Cons a ls)
  obtain e l where a: "a = (e, l)" by (cases a)
  show ?case
  proof (cases "e = ev")
    case False
    then obtain ls1 where "dispatch' ls ev args s = (r, ls1, s')" and "ls' = a # ls1"
      using Cons.prems a by (auto split: prod.splits)
    with Cons.IH[of s r ls1 s'] show ?thesis by auto
  next
    case True
    show ?thesis
    proof (cases l)
      case (Handler' h)
      show ?thesis
      proof (cases "h args")
        case None
        then obtain ls1 where "dispatch' ls ev args s = (r, ls1, s')" and "ls' = a # ls1"
          using Cons.prems a True Handler' by (auto split: prod.splits)
        with Cons.IH[of s r ls1 s'] show ?thesis by auto
      next
        case (Some x)
        then show ?thesis using Cons.prems a True Handler' by (auto simp: kept'_def)
      qed
    next
      case (OnAck' tid cb)
      define s1 where "s1 = snd (call tid cb Undefined (clearTimeout tid s))"
      have k1: "kept' s s1 \<and> emitted s1 = emitted s \<and> callbacks s1 = callbacks s"
        by (simp add: s1_def call_def clearTimeout_def kept'_def)
      show ?thesis
      proof (cases "cb Undefined")
        case None
        then have "dispatch' ls ev args s1 = (r, ls', s')"
          using Cons.prems a True OnAck' by (simp add: s1_def call_def)
        from Cons.IH[OF this] k1 show ?thesis by (auto simp: kept'_def)
      next
        case (Some x)
        then have "s' = s1" "ls' = ls"
          using Cons.prems a True OnAck' by (simp_all add: s1_def call_def)
        with k1 show ?thesis by auto
      qed
    qed
  qed
qed

lemma emit'_effect:
  "kept' s (snd (emit' ev args s))"
  "emitted (snd (emit' ev args s)) = emitted s @ [(ev, args)]"
proof -
  obtain r ls' s1 where d: "dispatch' (callbacks s) ev args (s\<lparr>emitted := emitted s @ [(ev, args)]\<rparr>) = (r, ls', s1)"
    by (metis prod_cases3)
  then have s': "snd (emit' ev args s) = s1\<lparr>callbacks := ls'\<rparr>" by (simp add: emit'_def)
  note f = dispatch'_effect[OF d]
  show "kept' s (snd (emit' ev args s))" using f s' by (simp add: kept'_def)
  show "emitted (snd (emit' ev args s)) = emitted s @ [(ev, args)]" using f s' by simp
qed

lemma emit'_preserves_kept': "preserves kept' (emit' ev args)"
  by (simp add: preserves_def emit'_effect)

subsection \<open>The backoff is reset on success\<close>

lemma preorder_same_backoff: "preorder same_backoff" "preorder same_backoff'"
  by (simp_all add: preorder_def same_backoff_def same_backoff'_def)

lemma preserves_weaken: "(\<And>s s'. R s s' \<Longrightarrow> Q s s') \<Longrightarrow> preserves R f \<Longrightarrow> preserves Q f"
  by (simp add: preserves_def)

lemma kept_same_backoff: "kept s s' \<Longrightarrow> same_backoff s s'"
  by (simp add: kept_def same_backoff_def)

lemma kept'_same_backoff': "kept' s s' \<Longrightarrow> same_backoff' s s'"
  by (simp add: kept'_def same_backoff'_def)

lemma onConnected_same_backoff: "preserves same_backoff onConnected"
  by (simp add: preserves_def same_backoff_def onConnected_fields)

lemma after_reset_same_backoff:
  "preserves same_backoff
    (andThen
       (\<lambda>s. if truthy (res_set res) \<and> truthy (js_member (res_set res) ''id'')
             then andThen (returns (\<lambda>s. s\<lparr>client_id := js_member (res_set res) ''id''\<rparr>))
                 (andThen onConnected (\<lambda>s. emit ''set:id'' [client_id s] s)) s
             else (None, s))
    (andThen onConnected
    (andThen (forEach onMessage (res_messages res))
       (returns
          (\<lambda>s. let messages = buffer (multiplexer s);
                    s1 = s\<lparr>multiplexer := mux_reset (multiplexer s)\<rparr>;
                    s2 = s1\<lparr>multiplexer := mux_start (multiplexer s1)\<rparr>
                in open messages s2)))))"
proof -
  have e: "preserves same_backoff (\<lambda>s. emit ''set:id'' [client_id s] s)"
    using emit_kept by (simp add: preserves_def same_backoff_def kept_def)
  show ?thesis
    by (intro preserves_andThen preserves_if preserves_returns preserves_skip preserves_forEach
        onConnected_same_backoff e preorder_same_backoff
        preserves_weaken[OF kept_same_backoff onMessage_preserves_kept])
       (simp_all add: same_backoff_def open_fields Let_def)
qed

text \<open>
  \<open>onRequestSuccess\<close> of \<^verbatim>\<open>part_000\<close> resets the backoff right after the guarded
  emission of \<open>success\<close>: when that emission returns (it does when no handler of
  \<open>error\<close> throws) the backoff is the reset one after the call, however the rest of
  the call ends. \<open>onRequestSuccess\<close> of \<^verbatim>\<open>Client.js\<close> resets it first, always.
  In the model of the backoff, the delay at zero attempts is \<open>ms\<close>, capped by \<open>max\<close>.
\<close>

lemma success_resets_backoff_both:
  "(fst (emit ''success'' [res_val res] s) = None \<longrightarrow>
        backoff (snd (onRequestSuccess res s)) = reset (backoff s))
   \<and> (quiet s \<longrightarrow> fst (emit ''success'' [res_val res] s) = None)
   \<and> backoff' (snd (onRequestSuccess' res t)) = reset (backoff' t)
   \<and> duration (reset b) = min (bms b) (bmax b)"
proof (intro conjI impI)
  assume r1: "fst (emit ''success'' [res_val res] s) = None"
  define s1 where "s1 = snd (emit ''success'' [res_val res] s)"
  have e1: "emit ''success'' [res_val res] s = (None, s1)" using r1 by (simp add: s1_def prod_eq_iff)
  have b1: "backoff s1 = backoff s" using emit_kept[of s] by (simp add: s1_def kept_def)
  define s2 where "s2 = s1\<lparr>backoff := reset (backoff s1)\<rparr>"
  have "onRequestSuccess res s =
    (andThen
       (\<lambda>s. if truthy (res_set res) \<and> truthy (js_member (res_set res) ''id'')
             then andThen (returns (\<lambda>s. s\<lparr>client_id := js_member (res_set res) ''id''\<rparr>))
                 (andThen onConnected (\<lambda>s. emit ''set:id'' [client_id s] s)) s
             else (None, s))
    (andThen onConnected
    (andThen (forEach onMessage (res_messages res))
       (returns
          (\<lambda>s. let messages = buffer (multiplexer s);
                    s1 = s\<lparr>multiplexer := mux_reset (multiplexer s)\<rparr>;
                    s2 = s1\<lparr>multiplexer := mux_start (multiplexer s1)\<rparr>
                in open messages s2))))) s2"
    using e1 by (simp add: onRequestSuccess_def andThen_def[of "emit ''success'' [res_val res]"]
        andThen_def[of "returns (\<lambda>s. s\<lparr>backoff := reset (backoff s)\<rparr>)"] returns_def s2_def)
  then have "backoff (snd (onRequestSuccess res s)) = backoff s2"
    using after_reset_same_backoff[of res] by (simp add: preserves_def same_backoff_def)
  then show "backoff (snd (onRequestSuccess res s)) = reset (backoff s)"
    using b1 by (simp add: s2_def)
next
  assume "quiet s"
  then show "fst (emit ''success'' [res_val res] s) = None" by (rule emit_quiet_fst)
next
  define t1 where "t1 = t\<lparr>backoff' := reset (backoff' t)\<rparr>"
  have p: "preserves same_backoff'
     (andThen (\<lambda>s. if \<not> connected' s then emit' ''connected'' [] (s\<lparr>connected' := True\<rparr>)
                   else (None, s))
     (andThen (forEach onMessage' (res_messages res))
       (returns (open' []))))"
  proof -
    have c: "preserves same_backoff' (\<lambda>s. emit' ''connected'' [] (s\<lparr>connected' := True\<rparr>))"
      using emit'_effect(1) by (simp add: preserves_def same_backoff'_def kept'_def)
    have m: "\<And>m. preserves same_backoff' (onMessage' m)"
      unfolding onMessage'_def
      by (intro preserves_andThen preserves_if preserves_returns preserves_skip
          preserves_weaken[OF kept'_same_backoff' emit'_preserves_kept'] preorder_same_backoff)
         (simp_all add: same_backoff'_def)
    show ?thesis
      by (intro preserves_andThen preserves_if preserves_returns preserves_skip preserves_forEach
          c m preorder_same_backoff)
         (simp_all add: same_backoff'_def open'_def channel_open'_def Let_def)
  qed
  have "onRequestSuccess' res t =
     (andThen (\<lambda>s. if \<not> connected' s then emit' ''connected'' [] (s\<lparr>connected' := True\<rparr>)
                   else (None, s))
     (andThen (forEach onMessage' (res_messages res))
       (returns (open' [])))) t1"
    by (simp add: onRequestSuccess'_def andThen_def[of "returns (\<lambda>s. s\<lparr>backoff' := reset (backoff' s)\<rparr>)"]
        returns_def t1_def)
  then have "backoff' (snd (onRequestSuccess' res t)) = backoff' t1"
    using p by (simp add: preserves_def same_backoff'_def)
  then show "backoff' (snd (onRequestSuccess' res t)) = reset (backoff' t)" by (simp add: t1_def)
next
  show "duration (reset b) = min (bms b) (bmax b)" by (simp add: duration_def reset_def)
qed

subsection \<open>Timers an emission adds\<close>








subsection \<open>C5: failures with status 401 and other failures\<close>


lemma onDisconnected_fields:
  "disabled (snd (onDisconnected s)) = disabled s"
  "requests (snd (onDisconnected s)) = requests s"
  "request (snd (onDisconnected s)) = request s"
  "loading (snd (onDisconnected s)) = loading s"
  "reopening (snd (onDisconnected s)) = reopening s"
  "backoff (snd (onDisconnected s)) = backoff s"
  "next_request (snd (onDisconnected s)) = next_request s"
  using emit_kept[of "s\<lparr>multiplexer := mux_stop (multiplexer s), client_id := Undefined, connected := False\<rparr>"
      "''disconnected''" "[]"]
  by (auto simp: onDisconnected_def kept_def)






lemma andThen_None:
  "andThen f g s = (None, s') \<Longrightarrow> \<exists>s1. f s = (None, s1) \<and> g s1 = (None, s')"
  by (auto simp: andThen_def split: prod.splits option.splits)

lemma preorder_legacy_failure_rel: "preorder legacy_failure_rel"
  using preorder_emits[of "{''error'', ''disconnected''}"]
  unfolding preorder_def legacy_failure_rel_def by metis

lemma emit'_emits: "ev \<in> P \<Longrightarrow> emits P s (snd (emit' ev args s))"
  by (simp add: emits_def emit'_effect(2))

lemma emit'_legacy_failure_rel:
  "ev \<in> {''error'', ''disconnected''} \<Longrightarrow> legacy_failure_rel s (snd (emit' ev args s))"
  using emit'_effect(1)[of s ev args] emit'_emits[of ev "{''error'', ''disconnected''}" s args]
  by (simp add: legacy_failure_rel_def kept'_def)

lemma legacy_failure:
  assumes "onRequestError' ms err t = (r, t')"
  shows "disabled' t' = disabled' t"
    and "\<forall>x \<in> set (since t t'). fst x = ''error'' \<or> fst x = ''disconnected''"
    and "r = None \<longrightarrow> (\<exists>T tid. timers t' = T @ [(tid, duration (backoff' t), ReopenWith ms)])"
proof -
  define A where "A = andThen (emit' ''error'' [JObj err])
      (\<lambda>s. if connected' s \<and> attempts (backoff' s) > options_disconnectedAfter s
            then emit' ''disconnected'' [] (s\<lparr>connected' := False\<rparr>) else (None, s))"
  have pA: "preserves legacy_failure_rel A"
  proof -
    have 1: "preserves legacy_failure_rel (emit' ''error'' [JObj err])"
      by (simp add: preserves_def emit'_legacy_failure_rel)
    have 2: "preserves legacy_failure_rel (\<lambda>s. emit' ''disconnected'' [] (s\<lparr>connected' := False\<rparr>))"
      unfolding preserves_def
    proof
      fix s
      show "legacy_failure_rel s (snd (emit' ''disconnected'' [] (s\<lparr>connected' := False\<rparr>)))"
        using emit'_legacy_failure_rel[of "''disconnected''" "s\<lparr>connected' := False\<rparr>" "[]"]
        by (simp add: legacy_failure_rel_def emits_def)
    qed
    show ?thesis unfolding A_def
      by (intro preserves_andThen preserves_if preserves_skip 1 2 preorder_legacy_failure_rel)
  qed
  have eq: "onRequestError' ms err t = andThen A (returns (reopen' ms)) t"
    by (simp add: onRequestError'_def A_def andThen_def split: prod.splits option.splits)
  obtain rA tA where a: "A t = (rA, tA)" by (cases "A t")
  have rA: "legacy_failure_rel t tA" using preservesD[OF pA a] .
  have t': "t' = (case rA of None \<Rightarrow> reopen' ms tA | Some e \<Rightarrow> tA)" and r: "r = rA"
    using assms eq a by (auto simp: andThen_def returns_def split: option.splits)
  have em: "emitted t' = emitted tA" "disabled' t' = disabled' tA"
    using t' by (auto simp: reopen'_def setTimeout_def split: option.splits)
  show "disabled' t' = disabled' t" using rA em by (simp add: legacy_failure_rel_def)
  have "emits {''error'', ''disconnected''} t t'"
    using rA em by (simp add: legacy_failure_rel_def emits_def)
  from emits_since(2)[OF this]
  show "\<forall>x \<in> set (since t t'). fst x = ''error'' \<or> fst x = ''disconnected''" by auto
  show "r = None \<longrightarrow> (\<exists>T tid. timers t' = T @ [(tid, duration (backoff' t), ReopenWith ms)])"
    using r t' rA by (auto simp: reopen'_def setTimeout_def legacy_failure_rel_def)
qed




subsection \<open>Objects\<close>

lemma map_of_js_set: "map_of (js_set ob k v) k' = (if k' = k then Some v else map_of ob k')"
  by (induction ob) auto

lemma js_get_js_set: "js_get (js_set ob k v) k' = (if k' = k then v else js_get ob k')"
  by (simp add: js_get_def map_of_js_set)

lemma js_get_js_spread:
  "js_get (js_spread a b) k = (case map_of (rev b) k of None \<Rightarrow> js_get a k | Some v \<Rightarrow> v)"
proof (induction b arbitrary: a)
  case Nil
  then show ?case by simp
next
  case (Cons x b)
  obtain k' v' where x: "x = (k', v')" by (cases x)
  show ?case using Cons.IH[of "js_set a k' v'"] x
    by (auto simp: js_get_js_set map_add_def split: option.splits)
qed

lemma map_of_rev_js_set:
  "k' \<noteq> k \<Longrightarrow> map_of (rev (js_set ob k v)) k' = map_of (rev ob) k'"
  by (induction ob) (auto simp: map_add_def split: option.splits)

subsection \<open>Decimal numerals are distinct\<close>

lemma digit_inj: "a < 10 \<Longrightarrow> b < 10 \<Longrightarrow> digit a = digit b \<Longrightarrow> a = b"
  unfolding digit_def by (simp split: if_splits) presburger

lemma show_nat_length: "length (show_nat n) = 1 \<longleftrightarrow> n < 10"
proof (cases "n < 10")
  case True
  then show ?thesis by (simp add: show_nat.simps[of n])
next
  case False
  then have "show_nat (n div 10) \<noteq> []" by (simp add: show_nat.simps[of "n div 10"])
  with False show ?thesis by (simp add: show_nat.simps[of n])
qed

lemma show_nat_inj: "show_nat n = show_nat m \<Longrightarrow> n = m"
proof (induction n arbitrary: m rule: less_induct)
  case (less n)
  show ?case
  proof (cases "n < 10")
    case True
    then have "m < 10" using less.prems show_nat_length[of n] show_nat_length[of m] by simp
    with True less.prems show ?thesis
      by (simp add: show_nat.simps[of n] show_nat.simps[of m] digit_inj)
  next
    case False
    then have m: "\<not> m < 10" using less.prems show_nat_length[of n] show_nat_length[of m] by simp
    with False less.prems
    have "show_nat (n div 10) = show_nat (m div 10)" and "digit (n mod 10) = digit (m mod 10)"
      by (simp_all add: show_nat.simps[of n] show_nat.simps[of m])
    then have "n div 10 = m div 10" and "n mod 10 = m mod 10"
      using less.IH[of "n div 10" "m div 10"] False digit_inj[of "n mod 10" "m mod 10"] by simp_all
    then show ?thesis by (metis div_mult_mod_eq)
  qed
qed

subsection \<open>C9: the id of a sent message\<close>

lemma send_enqueues:
  assumes "passes options"
  shows "\<exists>message. buffer (multiplexer (send options callback s)) = buffer (multiplexer s) @ [message]
           \<and> js_get message ''id'' = stamped (uid_counter s) options"
    and "uid_counter (send options callback s) = uid_counter s + 1"
proof -
  define options1 where "options1 = (if \<not> truthy (js_get options ''type'')
                     then js_set options ''type'' (JStr ''data'') else options)"
  define message where "message = js_spread [(''id'', JStr (show_nat (uid s)))] options1"
  have v: "\<not> (js_get options1 ''type'' = JStr ''data'' \<and> \<not> truthy (js_get options1 ''data''))"
    using assms by (auto simp: passes_def options1_def js_get_js_set)
  have i: "map_of (rev options1) ''id'' = map_of (rev options) ''id''"
    by (simp add: options1_def map_of_rev_js_set)
  have b: "buffer (multiplexer (send options callback s)) = buffer (multiplexer s) @ [message]"
    and u: "uid_counter (send options callback s) = uid_counter s + 1"
    using v
    by (auto simp: send_def Let_def options1_def[symmetric] message_def subscribeAck_def
        setTimeout_def uid_next_def mux_add_def split: option.splits)
  have "js_get [(''id'', JStr (show_nat (uid s)))] ''id'' = JStr (show_nat (uid_counter s))"
    by (simp add: js_get_def uid_def)
  then have "js_get message ''id'' = stamped (uid_counter s) options"
    by (simp add: message_def js_get_js_spread i stamped_def split: option.splits)
  with b show "\<exists>message. buffer (multiplexer (send options callback s)) = buffer (multiplexer s) @ [message]
           \<and> js_get message ''id'' = stamped (uid_counter s) options" by blast
  show "uid_counter (send options callback s) = uid_counter s + 1" by (rule u)
qed

lemma send'_enqueues:
  assumes "passes' options"
  shows "\<exists>message. buffer (multiplexer' (send' options callback t)) = buffer (multiplexer' t) @ [message]
           \<and> js_get message ''id'' = stamped (uid_counter t) options"
    and "uid_counter (send' options callback t) = uid_counter t + 1"
proof -
  define message where "message = js_spread
                    [(''id'', JStr (show_nat (uid t))), (''type'', JStr ''user''),
                     (''client'', options_id t), (''sender'', options_user t)] options"
  have b: "buffer (multiplexer' (send' options callback t)) = buffer (multiplexer' t) @ [message]"
    and u: "uid_counter (send' options callback t) = uid_counter t + 1"
    using assms
    by (auto simp: send'_def Let_def passes'_def message_def setTimeout_def uid_next_def mux_add_def)
  have "js_get [(''id'', JStr (show_nat (uid t))), (''type'', JStr ''user''),
                (''client'', options_id t), (''sender'', options_user t)] ''id''
        = JStr (show_nat (uid_counter t))"
    by (simp add: js_get_def uid_def)
  then have "js_get message ''id'' = stamped (uid_counter t) options"
    by (simp add: message_def js_get_js_spread stamped_def split: option.splits)
  with b show "\<exists>message. buffer (multiplexer' (send' options callback t)) = buffer (multiplexer' t) @ [message]
           \<and> js_get message ''id'' = stamped (uid_counter t) options" by blast
  show "uid_counter (send' options callback t) = uid_counter t + 1" by (rule u)
qed

lemma stamped_fresh:
  "map_of options ''id'' = None \<Longrightarrow> stamped n options = JStr (show_nat n)"
  "map_of options ''id'' = None \<Longrightarrow> k < n \<Longrightarrow> stamped n options \<noteq> JStr (show_nat k)"
  "distinct (map fst options) \<Longrightarrow> (''id'', v) \<in> set options \<Longrightarrow> stamped n options = v"
proof -
  show 1: "map_of options ''id'' = None \<Longrightarrow> stamped n options = JStr (show_nat n)"
  proof -
    assume "map_of options ''id'' = None"
    then have "''id'' \<notin> fst ` set (rev options)" by (simp add: map_of_eq_None_iff)
    then have "map_of (rev options) ''id'' = None" by (metis map_of_eq_None_iff)
    then show ?thesis by (simp add: stamped_def)
  qed
  show "map_of options ''id'' = None \<Longrightarrow> k < n \<Longrightarrow> stamped n options \<noteq> JStr (show_nat k)"
    using 1 show_nat_inj[of n k] by auto
  show "distinct (map fst options) \<Longrightarrow> (''id'', v) \<in> set options \<Longrightarrow> stamped n options = v"
    by (simp add: stamped_def distinct_rev rev_map[symmetric])
qed

lemmas controller'_defs =
  new_Client'_def client0'_def run'_def emit'_def send'_def noop_def onRequestClose'_def
  channel_open'_def channel_close'_def open'_def reopen'_def connect'_def disconnect'_def
  onMessage'_def onRequestSuccess'_def onRequestError'_def onDrain'_def fire'_def




lemma set_id_after_connected_example:
  "truthy (js_member (res_set greeting) ''id'') \<and> quiet (run [Connect] client0)
   \<and> client_id (snd (onRequestSuccess greeting (run [Connect] client0))) = JStr ''X''
   \<and> connected (snd (onRequestSuccess greeting (run [Connect] client0)))
   \<and> filter id_events (since (run [Connect] client0)
         (snd (onRequestSuccess greeting (run [Connect] client0))))
      = [(''connected'', []), (''set:id'', [JStr ''X''])]
   \<and> emitted (snd (onRequestSuccess greeting (run [Connect] client0)))
      = [(''success'', [res_val greeting]), (''connected'', []), (''set:id'', [JStr ''X'']),
         (''message'', [JObj [(''type'', JStr ''data''), (''data'', JStr ''hi''), (''id'', JStr ''m1'')]]),
         (''data'', [JStr ''hi''])]"
  using set_id_after_connected[of greeting "run [Connect] client0"
      "fst (onRequestSuccess greeting (run [Connect] client0))"
      "snd (onRequestSuccess greeting (run [Connect] client0))"]
  by (simp add: controller_defs greeting_def quiet_def quiet_listeners_def)

text \<open>
  C6. A response that assigns a session id can leave the client without it.
  \<open>onRequestSuccess\<close> starts with the guarded emission of \<open>success\<close>, and \<open>emit\<close>
  re-emits what a handler threw with \<open>this.out.emit('error', err)\<close> in its \<open>catch\<close>
  block, outside the \<open>try\<close>. With a \<open>success\<close> handler that throws \<open>x\<close> and an
  \<open>error\<close> handler that throws \<open>y\<close>, on a client that holds no id, the response
  \<open>{set: {id: 'X'}, messages: []}\<close> makes \<open>onRequestSuccess\<close> throw \<open>y\<close> after
  the events \<open>success\<close> and \<open>error\<close>: the id is not adopted, the client is not
  connected, neither \<open>connected\<close> nor \<open>set:id\<close> is emitted, and afterwards no
  request is in flight.
\<close>

theorem success_throw_skips_id:
  "client_id (run [On ''success'' (throws x), On ''error'' (throws y), Connect] client0) = Undefined
   \<and> truthy (js_member (res_set assigned) ''id'')
   \<and> fst (onRequestSuccess assigned
        (run [On ''success'' (throws x), On ''error'' (throws y), Connect] client0)) = Some (JStr y)
   \<and> client_id (snd (onRequestSuccess assigned
        (run [On ''success'' (throws x), On ''error'' (throws y), Connect] client0))) = Undefined
   \<and> \<not> connected (snd (onRequestSuccess assigned
        (run [On ''success'' (throws x), On ''error'' (throws y), Connect] client0)))
   \<and> emitted (snd (onRequestSuccess assigned
        (run [On ''success'' (throws x), On ''error'' (throws y), Connect] client0)))
      = [(''success'', [res_val assigned]), (''error'', [JStr x])]
   \<and> emitted (run [On ''success'' (throws x), On ''error'' (throws y), Connect, Succeed 0 assigned True] client0)
      = [(''success'', [res_val assigned]), (''error'', [JStr x])]
   \<and> client_id (run [On ''success'' (throws x), On ''error'' (throws y), Connect, Succeed 0 assigned True] client0)
      = Undefined
   \<and> requests (run [On ''success'' (throws x), On ''error'' (throws y), Connect, Succeed 0 assigned True] client0)
      = []"
  by (simp add: controller_defs assigned_def)

theorem success_throw_skips_id_witness:
  "truthy (js_member (res_set assigned) ''id'')
   \<and> fst (onRequestSuccess assigned
        (run [On ''success'' (throws ''boom''), On ''error'' (throws ''again''), Connect] client0))
      = Some (JStr ''again'')
   \<and> client_id (snd (onRequestSuccess assigned
        (run [On ''success'' (throws ''boom''), On ''error'' (throws ''again''), Connect] client0))) = Undefined
   \<and> \<not> connected (snd (onRequestSuccess assigned
        (run [On ''success'' (throws ''boom''), On ''error'' (throws ''again''), Connect] client0)))
   \<and> emitted (snd (onRequestSuccess assigned
        (run [On ''success'' (throws ''boom''), On ''error'' (throws ''again''), Connect] client0)))
      = [(''success'', [res_val assigned]), (''error'', [JStr ''boom''])]"
  using success_throw_skips_id[of "''boom''" "''again''"] by simp

lemma success_resets_backoff_example:
  "quiet (client0\<lparr>backoff := (backoff client0)\<lparr>attempts := 3\<rparr>\<rparr>)
   \<and> duration (backoff (client0\<lparr>backoff := (backoff client0)\<lparr>attempts := 3\<rparr>\<rparr>)) = 800
   \<and> attempts (backoff (snd (onRequestSuccess assigned
        (client0\<lparr>backoff := (backoff client0)\<lparr>attempts := 3\<rparr>\<rparr>)))) = 0
   \<and> duration (backoff (snd (onRequestSuccess assigned
        (client0\<lparr>backoff := (backoff client0)\<lparr>attempts := 3\<rparr>\<rparr>)))) = 100
   \<and> attempts (backoff' (snd (onRequestSuccess' assigned
        (client0'\<lparr>backoff' := (backoff' client0')\<lparr>attempts := 3\<rparr>\<rparr>)))) = 0"
  using success_resets_backoff_both[of assigned "client0\<lparr>backoff := (backoff client0)\<lparr>attempts := 3\<rparr>\<rparr>"
      "client0'\<lparr>backoff' := (backoff' client0')\<lparr>attempts := 3\<rparr>\<rparr>"
      "\<lparr>bms = 100, bmax = 10000, bfactor = 2, attempts = 3\<rparr>"]
  by (simp add: controller_defs controller'_defs quiet_def quiet_listeners_def)

text \<open>
  C9. A \<open>send(options)\<close> that passes validation enqueues one message, whose id is
  that of \<open>{id: String(uid()), ...options}\<close>, and advances the generator (both
  controllers). When \<open>options\<close> has no \<open>id\<close> this is the generated id, distinct
  from every id generated before; when \<open>options\<close> has an \<open>id\<close>, it is that one.
\<close>

theorem send_stamps_id:
  "(passes options \<longrightarrow>
      (\<exists>message. buffer (multiplexer (send options callback s)) = buffer (multiplexer s) @ [message]
           \<and> js_get message ''id'' = stamped (uid_counter s) options)
      \<and> uid_counter (send options callback s) = uid_counter s + 1)
   \<and> (passes' options \<longrightarrow>
      (\<exists>message. buffer (multiplexer' (send' options callback t)) = buffer (multiplexer' t) @ [message]
           \<and> js_get message ''id'' = stamped (uid_counter t) options)
      \<and> uid_counter (send' options callback t) = uid_counter t + 1)
   \<and> (map_of options ''id'' = None \<longrightarrow>
        stamped n options = JStr (show_nat n) \<and> (\<forall>k < n. stamped n options \<noteq> JStr (show_nat k)))
   \<and> (distinct (map fst options) \<and> (''id'', v) \<in> set options \<longrightarrow> stamped n options = v)"
  using send_enqueues[of options callback s] send'_enqueues[of options callback t]
    stamped_fresh[where options = options and n = n]
  by (intro conjI impI allI) simp_all

theorem send_stamps_id_witness:
  "passes [(''data'', JStr ''x'')] \<and> passes' [(''data'', JStr ''x'')]
   \<and> map_of [(''data'', JStr ''x'')] ''id'' = None
   \<and> buffer (multiplexer (send [(''data'', JStr ''x'')] None (client0\<lparr>uid_counter := 12\<rparr>)))
       = [[(''id'', JStr ''12''), (''data'', JStr ''x''), (''type'', JStr ''data'')]]
   \<and> uid_counter (send [(''data'', JStr ''x'')] None (client0\<lparr>uid_counter := 12\<rparr>)) = 13
   \<and> stamped 12 [(''data'', JStr ''x'')] = JStr ''12''
   \<and> buffer (multiplexer' (send' [(''data'', JStr ''x'')] None (client0'\<lparr>uid_counter := 12\<rparr>)))
       = [[(''id'', JStr ''12''), (''type'', JStr ''user''), (''client'', JStr ''c1''),
           (''sender'', JStr ''u1''), (''data'', JStr ''x'')]]"
  using send_stamps_id[where options = "[(''data'', JStr ''x'')]" and callback = None
      and s = "client0\<lparr>uid_counter := 12\<rparr>" and t = "client0'\<lparr>uid_counter := 12\<rparr>"
      and n = 12 and v = Undefined]
  by (simp add: controller_defs controller'_defs passes_def passes'_def stamped_def show_nat.simps digit_def)

theorem send_stamps_id_counterexample:
  "passes [(''id'', JStr ''mine''), (''data'', JStr ''x'')]
   \<and> buffer (multiplexer (send [(''id'', JStr ''mine''), (''data'', JStr ''x'')] None client0))
       = [[(''id'', JStr ''mine''), (''data'', JStr ''x''), (''type'', JStr ''data'')]]
   \<and> buffer (multiplexer (send [(''id'', JStr ''mine''), (''data'', JStr ''x'')] None
        (send [(''id'', JStr ''mine''), (''data'', JStr ''x'')] None client0)))
       = [[(''id'', JStr ''mine''), (''data'', JStr ''x''), (''type'', JStr ''data'')],
          [(''id'', JStr ''mine''), (''data'', JStr ''x''), (''type'', JStr ''data'')]]
   \<and> JStr ''mine'' \<noteq> JStr (show_nat (uid client0))
   \<and> passes' [(''id'', JStr ''mine''), (''data'', JStr ''x'')]
   \<and> buffer (multiplexer' (send' [(''id'', JStr ''mine''), (''data'', JStr ''x'')] None client0'))
       = [[(''id'', JStr ''mine''), (''type'', JStr ''user''), (''client'', JStr ''c1''),
           (''sender'', JStr ''u1''), (''data'', JStr ''x'')]]"
  by (simp add: controller_defs controller'_defs passes_def passes'_def show_nat.simps digit_def)

subsection \<open>C4: validation in \<open>send\<close>\<close>

text \<open>
  \<open>send\<close> of \<^verbatim>\<open>part_000\<close> with a callback, for options without truthy \<open>data\<close>
  whose type is \<open>data\<close> or defaults to it: the only effect is the zero-delay timer
  that calls the callback with the error; nothing is enqueued.
\<close>

lemma send_rejects_missing_data:
  assumes "\<not> truthy (js_get options ''data'')"
    and "\<not> truthy (js_get options ''type'') \<or> js_get options ''type'' = JStr ''data''"
  shows "send options (Some cb) s =
           setTimeout (Validation cb (js_Error ''Undefined property \"data\"'')) 0 s"
    and "multiplexer (send options (Some cb) s) = multiplexer s"
    and "timers (send options (Some cb) s) =
           timers s @ [(next_timer s, 0, Validation cb (js_Error ''Undefined property \"data\"''))]"
proof -
  show 1: "send options (Some cb) s =
           setTimeout (Validation cb (js_Error ''Undefined property \"data\"'')) 0 s"
    using assms by (auto simp: send_def Let_def js_get_js_set)
  show "multiplexer (send options (Some cb) s) = multiplexer s"
    by (simp add: 1 setTimeout_def)
  show "timers (send options (Some cb) s) =
           timers s @ [(next_timer s, 0, Validation cb (js_Error ''Undefined property \"data\"''))]"
    by (simp add: 1 setTimeout_def)
qed

text \<open>
  C4. \<open>send({}, cb)\<close> on a fresh client of \<^verbatim>\<open>Client.js\<close>: the type is omitted and
  defaults to \<open>user\<close>, data and recipient are missing, yet the message is enqueued
  and the only timer is the ack timeout, which calls \<open>cb\<close> with the delivery
  timeout. With the type given as \<open>user\<close> the same options are rejected, as
  \<open>send({}, cb)\<close> is by \<^verbatim>\<open>part_000\<close>.
\<close>

theorem send_default_type_unvalidated:
  "js_get [] ''type'' = Undefined
   \<and> buffer (multiplexer' (send' [] (Some cb) client0'))
       = [[(''id'', JStr ''0''), (''type'', JStr ''user''), (''client'', JStr ''c1''), (''sender'', JStr ''u1'')]]
   \<and> timers (send' [] (Some cb) client0') = [(0, 10000, AckTimeout ''ack:0'' cb)]
   \<and> calls (snd (fire' 0 (send' [] (Some cb) client0'))) = [(0, js_Error ''Delivery timeout.'')]
   \<and> timers (send' [(''type'', JStr ''user'')] (Some cb) client0')
       = [(0, 0, Validation cb (js_Error ''Recipient is undefined.''))]
   \<and> buffer (multiplexer' (send' [(''type'', JStr ''user'')] (Some cb) client0')) = []
   \<and> timers (send [] (Some cb) client0)
       = [(0, 0, Validation cb (js_Error ''Undefined property \"data\"''))]
   \<and> buffer (multiplexer (send [] (Some cb) client0)) = []"
  by (simp add: controller_defs controller'_defs show_nat.simps digit_def)

theorem send_default_type_unvalidated_witness:
  "buffer (multiplexer' (send' [] (Some noop) client0'))
     = [[(''id'', JStr ''0''), (''type'', JStr ''user''), (''client'', JStr ''c1''), (''sender'', JStr ''u1'')]]
   \<and> timers (send' [] (Some noop) client0') = [(0, 10000, AckTimeout ''ack:0'' noop)]"
  using send_default_type_unvalidated[of noop] by simp

subsection \<open>C2: one request in flight\<close>

text \<open>The invariant \<open>one_request\<close> is kept by every operation of \<^verbatim>\<open>part_000\<close>,
  whether it returns or throws.\<close>

lemma preorder_one_request_rel: "preorder one_request_rel"
  by (simp add: preorder_def one_request_rel_def)

lemma kept_one_request_rel: "kept s s' \<Longrightarrow> one_request_rel s s'"
  by (simp add: kept_def one_request_rel_def one_request_def)

lemma one_request_cong:
  "requests s' = requests s \<Longrightarrow> request s' = request s \<Longrightarrow> loading s' = loading s
     \<Longrightarrow> one_request s' = one_request s"
  by (simp add: one_request_def)

lemma one_request_rel_same:
  "requests s' = requests s \<Longrightarrow> request s' = request s \<Longrightarrow> loading s' = loading s
     \<Longrightarrow> one_request_rel s s'"
  by (simp add: one_request_rel_def one_request_def)

lemma open_one_request: "one_request s \<Longrightarrow> one_request (open ms s)"
  by (auto simp: one_request_def open_def channel_open_def Let_def split: option.splits)

lemma channel_close_one_request: "one_request s \<Longrightarrow> one_request (channel_close rid s)"
  by (auto simp: one_request_def channel_close_def onRequestClose_def in_flight_def
      map_of_eq_None_iff split: option.splits)

lemma emit_one_request_rel: "preserves one_request_rel (emit ev args)"
  by (rule preserves_weaken[OF kept_one_request_rel emit_preserves_kept])

lemma onMessage_one_request_rel: "preserves one_request_rel (onMessage m)"
  by (rule preserves_weaken[OF kept_one_request_rel onMessage_preserves_kept])

lemma onConnected_one_request_rel: "preserves one_request_rel onConnected"
proof -
  have "preserves one_request_rel (\<lambda>s. emit ''connected'' [] (s\<lparr>connected := True\<rparr>))"
    unfolding preserves_def
  proof
    fix s show "one_request_rel s (snd (emit ''connected'' [] (s\<lparr>connected := True\<rparr>)))"
      using emit_kept[of "s\<lparr>connected := True\<rparr>" "''connected''" "[]"]
      by (simp add: one_request_rel_def one_request_def kept_def)
  qed
  then show ?thesis unfolding onConnected_def
    by (intro preserves_if preserves_skip preorder_one_request_rel)
qed

lemma onDisconnected_one_request_rel: "preserves one_request_rel onDisconnected"
  unfolding preserves_def
  by (simp add: one_request_rel_same onDisconnected_fields)

lemma disconnect_one_request_rel: "preserves one_request_rel disconnect"
  unfolding preserves_def
proof
  fix s
  define s2 where "s2 = (case request (s\<lparr>disabled := True\<rparr>) of
      Some rid \<Rightarrow> channel_close rid (s\<lparr>disabled := True\<rparr>) | None \<Rightarrow> s\<lparr>disabled := True\<rparr>)"
  have "one_request s \<Longrightarrow> one_request (s\<lparr>disabled := True\<rparr>)" by (simp add: one_request_def)
  then have "one_request s \<Longrightarrow> one_request s2"
    by (auto simp: s2_def channel_close_one_request split: option.splits)
  moreover have "one_request_rel s2 (snd (onDisconnected s2))"
    using onDisconnected_one_request_rel by (simp add: preserves_def)
  ultimately show "one_request_rel s (snd (disconnect s))"
    by (simp add: disconnect_def Let_def s2_def one_request_rel_def)
qed

lemma reopen_one_request_rel: "preserves one_request_rel reopen"
  unfolding preserves_def
proof
  fix s
  show "one_request_rel s (snd (reopen s))"
  proof (cases "reopening s")
    case True
    then show ?thesis by (simp add: reopen_def one_request_rel_def)
  next
    case False
    define d where "d = duration (backoff s)"
    define s3 where "s3 = s\<lparr>backoff := duration_next (backoff s), reopening := True,
                              multiplexer := mux_stop (multiplexer s)\<rparr>"
    have p: "preserves one_request_rel
       (andThen (\<lambda>s. if d \<ge> bmax (backoff s) then onDisconnected s else (None, s))
                    (returns (setTimeout Reopen d)))"
      by (intro preserves_andThen preserves_if preserves_skip preserves_returns
          onDisconnected_one_request_rel preorder_one_request_rel)
         (simp add: one_request_rel_def one_request_def setTimeout_def)
    have "reopen s =
        andThen (\<lambda>s. if d \<ge> bmax (backoff s) then onDisconnected s else (None, s))
          (returns (setTimeout Reopen d)) s3"
      using False by (simp add: reopen_def Let_def d_def s3_def)
    moreover have "one_request s \<Longrightarrow> one_request s3" by (simp add: one_request_def s3_def)
    ultimately show ?thesis using p by (simp add: preserves_def one_request_rel_def)
  qed
qed

lemma onRequestError_one_request_rel: "preserves one_request_rel (onRequestError err)"
  unfolding onRequestError_def onUnauthorized_def
  by (intro preserves_andThen preserves_if emit_one_request_rel disconnect_one_request_rel
      reopen_one_request_rel preorder_one_request_rel)

lemma onRequestSuccess_one_request_rel: "preserves one_request_rel (onRequestSuccess res)"
proof -
  have e: "preserves one_request_rel (\<lambda>s. emit ''set:id'' [client_id s] s)"
    using emit_kept by (simp add: preserves_def kept_one_request_rel)
  show ?thesis unfolding onRequestSuccess_def
    by (intro preserves_andThen preserves_if preserves_returns preserves_skip preserves_forEach
        emit_one_request_rel onConnected_one_request_rel onMessage_one_request_rel e
        preorder_one_request_rel)
       (simp_all add: one_request_rel_def one_request_def open_one_request[unfolded one_request_def] Let_def)
qed

lemma send_one_request: "one_request s \<Longrightarrow> one_request (send options callback s)"
  by (auto simp: one_request_def send_def Let_def setTimeout_def subscribeAck_def uid_next_def
      split: option.splits)

lemma fire_one_request: "one_request s \<Longrightarrow> one_request (snd (fire tid s))"
proof -
  assume i: "one_request s"
  have c: "one_request (clearTimeout tid s)" using i by (simp add: one_request_def clearTimeout_def)
  show ?thesis
  proof (cases "map_of (timers s) tid")
    case None
    then show ?thesis using i by (simp add: fire_def)
  next
    case (Some p)
    obtain d t where p: "p = (d, t)" by (cases p)
    show ?thesis using Some p c
      by (cases t)
         (simp_all add: fire_def call_def reopen_timer_def one_request_def Let_def
            open_one_request[unfolded one_request_def])
  qed
qed

lemma step_one_request: "one_request s \<Longrightarrow> one_request (step e s)"
proof (cases e)
  case Connect
  assume "one_request s"
  then have "one_request (s\<lparr>disabled := False\<rparr>)" by (simp add: one_request_def)
  then show ?thesis using Connect \<open>one_request s\<close> by (simp add: connect_def open_one_request)
next
  case Disconnect
  assume "one_request s"
  then show ?thesis using Disconnect disconnect_one_request_rel
    by (simp add: preserves_def one_request_rel_def)
next
  case (Send options callback)
  assume "one_request s"
  then show ?thesis using Send by (simp add: send_one_request)
next
  case (On ev h)
  assume "one_request s"
  then show ?thesis using On by (simp add: one_request_def)
next
  case Drain
  assume i: "one_request s"
  have "one_request (s\<lparr>multiplexer := mux_reset (multiplexer s)\<rparr>)"
    using i by (simp add: one_request_def)
  then have "one_request (onDrain (buffer (multiplexer s)) (s\<lparr>multiplexer := mux_reset (multiplexer s)\<rparr>))"
    unfolding onDrain_def
    by (auto intro!: open_one_request channel_close_one_request split: option.splits)
  then show ?thesis using Drain i by simp
next
  case (Fire tid)
  assume "one_request s"
  then show ?thesis using Fire by (simp add: fire_one_request)
next
  case (Succeed rid res close_first)
  assume i: "one_request s"
  have a: "\<And>s. one_request s \<Longrightarrow> one_request (snd (onRequestSuccess res s))"
    using onRequestSuccess_one_request_rel by (simp add: preserves_def one_request_rel_def)
  show ?thesis using Succeed i a channel_close_one_request
    by (simp split: option.splits)
next
  case (Fail rid err close_first)
  assume i: "one_request s"
  have a: "\<And>ms s. one_request s \<Longrightarrow> one_request (snd (onError ms err s))"
  proof -
    fix ms s assume "one_request s"
    then have "one_request (s\<lparr>multiplexer := mux_add ms (multiplexer s)\<rparr>)"
      by (simp add: one_request_def)
    then show "one_request (snd (onError ms err s))"
      using onRequestError_one_request_rel
      by (simp add: onError_def preserves_def one_request_rel_def)
  qed
  show ?thesis using Fail i a channel_close_one_request
    by (simp split: option.splits)
qed

lemma run_one_request: "one_request s \<Longrightarrow> one_request (run es s)"
  unfolding run_def by (induction es arbitrary: s) (simp_all add: step_one_request)

lemma new_Client_one_request: "one_request (new_Client cid url data ackTimeout responseTimeout b m)"
  by (simp add: one_request_def new_Client_def)

text \<open>The same for \<^verbatim>\<open>Client.js\<close>.\<close>

lemma preorder_one_request_rel': "preorder one_request_rel'"
  by (simp add: preorder_def one_request_rel'_def)

lemma kept'_one_request_rel': "kept' s s' \<Longrightarrow> one_request_rel' s s'"
  by (simp add: kept'_def one_request_rel'_def one_request'_def)

lemma open'_one_request': "one_request' s \<Longrightarrow> one_request' (open' ms s)"
  by (auto simp: one_request'_def open'_def channel_open'_def Let_def split: option.splits)

lemma channel_close'_one_request': "one_request' s \<Longrightarrow> one_request' (channel_close' rid s)"
  by (auto simp: one_request'_def channel_close'_def onRequestClose'_def in_flight_def
      map_of_eq_None_iff split: option.splits)

lemma emit'_one_request_rel': "preserves one_request_rel' (emit' ev args)"
  by (rule preserves_weaken[OF kept'_one_request_rel' emit'_preserves_kept'])

lemma emit'_upd_one_request_rel':
  "preserves one_request_rel' (\<lambda>s. emit' ev args (s\<lparr>connected' := c\<rparr>))"
  unfolding preserves_def
proof
  fix s show "one_request_rel' s (snd (emit' ev args (s\<lparr>connected' := c\<rparr>)))"
    using emit'_effect(1)[of "s\<lparr>connected' := c\<rparr>" ev args]
    by (simp add: one_request_rel'_def one_request'_def kept'_def)
qed

lemma onMessage'_one_request_rel': "preserves one_request_rel' (onMessage' m)"
  unfolding onMessage'_def
  by (intro preserves_andThen preserves_if preserves_returns emit'_one_request_rel'
      preorder_one_request_rel')
     (simp add: one_request_rel'_def one_request'_def)

lemma onRequestSuccess'_one_request_rel': "preserves one_request_rel' (onRequestSuccess' res)"
  unfolding onRequestSuccess'_def
  by (intro preserves_andThen preserves_if preserves_returns preserves_skip preserves_forEach
      emit'_upd_one_request_rel' onMessage'_one_request_rel' preorder_one_request_rel')
     (simp_all add: one_request_rel'_def one_request'_def open'_one_request'[unfolded one_request'_def])

lemma onRequestError'_one_request_rel': "preserves one_request_rel' (onRequestError' ms err)"
  unfolding onRequestError'_def
  by (intro preserves_andThen preserves_if preserves_returns preserves_skip
      emit'_upd_one_request_rel' emit'_one_request_rel' preorder_one_request_rel')
     (simp_all add: one_request_rel'_def one_request'_def reopen'_def setTimeout_def)

lemma connect'_one_request': "one_request' s \<Longrightarrow> one_request' (snd (connect' s))"
proof -
  assume i: "one_request' s"
  have e: "\<And>e. one_request' (snd (emit' ''error'' [e] s))"
    using emit'_one_request_rel' i by (simp add: preserves_def one_request_rel'_def)
  have o: "one_request' (open' [] (s\<lparr>disabled' := False, drain_listeners := drain_listeners s + 1\<rparr>))"
    using i by (intro open'_one_request') (simp add: one_request'_def)
  show ?thesis using i e o by (simp add: connect'_def Let_def)
qed

lemma disconnect'_one_request': "one_request' s \<Longrightarrow> one_request' (snd (disconnect' s))"
proof -
  assume i: "one_request' s"
  define s1 where "s1 = s\<lparr>disabled' := True, connected' := False, drain_listeners := 0\<rparr>"
  define s2 where "s2 = (case request' s1 of Some rid \<Rightarrow> channel_close' rid s1 | None \<Rightarrow> s1)"
  have "one_request' s1" using i by (simp add: s1_def one_request'_def)
  then have 2: "one_request' s2"
    by (auto simp: s2_def channel_close'_one_request' split: option.splits)
  then have "one_request' (snd (emit' ''disconnected'' [] s2))"
    using emit'_one_request_rel' by (simp add: preserves_def one_request_rel'_def)
  moreover have "disconnect' s = (if connected' s then emit' ''disconnected'' [] s2 else (None, s2))"
    by (simp add: disconnect'_def Let_def s1_def s2_def split: option.splits)
  ultimately show ?thesis using 2 by simp
qed

lemma send'_one_request': "one_request' s \<Longrightarrow> one_request' (send' options callback s)"
  by (auto simp: one_request'_def send'_def Let_def setTimeout_def uid_next_def
      split: option.splits)

lemma fire'_one_request': "one_request' s \<Longrightarrow> one_request' (snd (fire' tid s))"
proof -
  assume i: "one_request' s"
  have c: "one_request' (clearTimeout tid s)" using i by (simp add: one_request'_def clearTimeout_def)
  show ?thesis
  proof (cases "map_of (timers s) tid")
    case None
    then show ?thesis using i by (simp add: fire'_def)
  next
    case (Some p)
    obtain d t where p: "p = (d, t)" by (cases p)
    show ?thesis using Some p c
      by (cases t)
         (simp_all add: fire'_def call_def one_request'_def Let_def
            open'_one_request'[unfolded one_request'_def])
  qed
qed

lemma onDrain'_one_request': "one_request' s \<Longrightarrow> one_request' (onDrain' ms s)"
  unfolding onDrain'_def
  by (auto intro!: open'_one_request' channel_close'_one_request' split: option.splits)

lemma onDrain'_times_one_request': "one_request' s \<Longrightarrow> one_request' ((onDrain' ms ^^ n) s)"
  by (induction n) (simp_all add: onDrain'_one_request')

lemma step'_one_request': "one_request' s \<Longrightarrow> one_request' (step' e s)"
proof (cases e)
  case Connect
  assume "one_request' s"
  then show ?thesis using Connect by (simp add: connect'_one_request')
next
  case Disconnect
  assume "one_request' s"
  then show ?thesis using Disconnect by (simp add: disconnect'_one_request')
next
  case (Send options callback)
  assume "one_request' s"
  then show ?thesis using Send by (simp add: send'_one_request')
next
  case (On ev h)
  assume "one_request' s"
  then show ?thesis using On by (simp add: one_request'_def)
next
  case Drain
  assume i: "one_request' s"
  have "one_request' (s\<lparr>multiplexer' := mux_reset (multiplexer' s)\<rparr>)"
    using i by (simp add: one_request'_def)
  then show ?thesis using Drain i by (simp add: onDrain'_times_one_request')
next
  case (Fire tid)
  assume "one_request' s"
  then show ?thesis using Fire by (simp add: fire'_one_request')
next
  case (Succeed rid res close_first)
  assume i: "one_request' s"
  have a: "\<And>s. one_request' s \<Longrightarrow> one_request' (snd (onRequestSuccess' res s))"
    using onRequestSuccess'_one_request_rel' by (simp add: preserves_def one_request_rel'_def)
  show ?thesis using Succeed i a channel_close'_one_request'
    by (simp split: option.splits)
next
  case (Fail rid err close_first)
  assume i: "one_request' s"
  have a: "\<And>ms s. one_request' s \<Longrightarrow> one_request' (snd (onRequestError' ms err s))"
    using onRequestError'_one_request_rel' by (simp add: preserves_def one_request_rel'_def)
  show ?thesis using Fail i a channel_close'_one_request'
    by (simp split: option.splits)
qed

lemma run'_one_request': "one_request' s \<Longrightarrow> one_request' (run' es s)"
  unfolding run'_def by (induction es arbitrary: s) (simp_all add: step'_one_request')

lemma new_Client'_one_request':
  "one_request' (new_Client' cid user url disconnectedAfter ackTimeout b m)"
  by (simp add: one_request'_def new_Client'_def)

text \<open>
  C2. At most one request is in flight at any time. For both controllers, after
  every sequence of connect, disconnect, send, handler registration, drain, timer
  and response events from a fresh client, the state satisfies \<open>one_request\<close>: the
  requests in flight are exactly the one whose handle the client holds, if any,
  so there is never more than one, and \<open>loading\<close> is set exactly while there is
  one. \<open>open\<close> issues a request only when \<open>loading\<close> (and \<open>disabled\<close>) is false,
  sets \<open>loading\<close> with it, and under the guard leaves the requests in flight as
  they are. The request module is taken as described before \<open>channel_open\<close>:
  \<open>onClose\<close> runs when a request leaves flight, by completing or by
  \<open>close()\<close>, and not otherwise.
\<close>

theorem one_request_in_flight:
  "one_request (run es (new_Client cid url data ackTimeout responseTimeout b m))
   \<and> one_request' (run' es (new_Client' cid user url disconnectedAfter ackTimeout b m))
   \<and> (one_request s \<longrightarrow> length (requests s) \<le> 1 \<and> (loading s \<longleftrightarrow> requests s \<noteq> []))
   \<and> (one_request' t \<longrightarrow> length (requests t) \<le> 1 \<and> (loading' t \<longleftrightarrow> requests t \<noteq> []))
   \<and> (disabled s \<or> loading s \<longrightarrow> requests (open ms s) = requests s)
   \<and> (\<not> disabled s \<and> \<not> loading s \<longrightarrow>
        loading (open ms s) \<and> request (open ms s) = Some (next_request s)
        \<and> map fst (requests (open ms s)) = map fst (requests s) @ [next_request s])
   \<and> (disabled' t \<or> loading' t \<longrightarrow> requests (open' ms t) = requests t)
   \<and> (\<not> disabled' t \<and> \<not> loading' t \<longrightarrow>
        loading' (open' ms t) \<and> request' (open' ms t) = Some (next_request t)
        \<and> map fst (requests (open' ms t)) = map fst (requests t) @ [next_request t])"
proof (intro conjI impI)
  show "one_request (run es (new_Client cid url data ackTimeout responseTimeout b m))"
    by (rule run_one_request[OF new_Client_one_request])
  show "one_request' (run' es (new_Client' cid user url disconnectedAfter ackTimeout b m))"
    by (rule run'_one_request'[OF new_Client'_one_request'])
qed (auto simp: one_request_def one_request'_def open_def open'_def channel_open_def
      channel_open'_def Let_def split: option.splits)

theorem one_request_in_flight_witness:
  "one_request (run [Connect, Send [(''data'', JStr ''a'')] None, Drain, Connect] client0)
   \<and> loading (run [Connect, Send [(''data'', JStr ''a'')] None, Drain, Connect] client0)
   \<and> map fst (requests (run [Connect, Send [(''data'', JStr ''a'')] None, Drain, Connect] client0)) = [1]
   \<and> requests (open [] (run [Connect, Send [(''data'', JStr ''a'')] None, Drain, Connect] client0))
      = requests (run [Connect, Send [(''data'', JStr ''a'')] None, Drain, Connect] client0)
   \<and> \<not> disabled (run [Connect, Succeed 0 assigned False] client0)
   \<and> \<not> loading (run [Connect, Succeed 0 assigned False] client0)
   \<and> requests (run [Connect, Succeed 0 assigned False] client0) = []
   \<and> map fst (requests (open [] (run [Connect, Succeed 0 assigned False] client0))) = [1]
   \<and> loading (open [] (run [Connect, Succeed 0 assigned False] client0))
   \<and> one_request' (run' [Connect, Send [(''data'', JStr ''a'')] None, Drain, Connect] client0')
   \<and> loading' (run' [Connect, Send [(''data'', JStr ''a'')] None, Drain, Connect] client0')
   \<and> map fst (requests (run' [Connect, Send [(''data'', JStr ''a'')] None, Drain, Connect] client0')) = [1]
   \<and> requests (open' [] (run' [Connect, Send [(''data'', JStr ''a'')] None, Drain, Connect] client0'))
      = requests (run' [Connect, Send [(''data'', JStr ''a'')] None, Drain, Connect] client0')
   \<and> \<not> disabled' (channel_close' 1 (run' [Connect, Succeed 0 assigned True] client0'))
   \<and> \<not> loading' (channel_close' 1 (run' [Connect, Succeed 0 assigned True] client0'))
   \<and> requests (channel_close' 1 (run' [Connect, Succeed 0 assigned True] client0')) = []
   \<and> map fst (requests (open' [] (channel_close' 1 (run' [Connect, Succeed 0 assigned True] client0')))) = [2]
   \<and> loading' (open' [] (channel_close' 1 (run' [Connect, Succeed 0 assigned True] client0')))"
proof -
  have ev: "loading (run [Connect, Send [(''data'', JStr ''a'')] None, Drain, Connect] client0)
     \<and> map fst (requests (run [Connect, Send [(''data'', JStr ''a'')] None, Drain, Connect] client0)) = [1]
     \<and> \<not> disabled (run [Connect, Succeed 0 assigned False] client0)
     \<and> \<not> loading (run [Connect, Succeed 0 assigned False] client0)
     \<and> requests (run [Connect, Succeed 0 assigned False] client0) = []
     \<and> next_request (run [Connect, Succeed 0 assigned False] client0) = 1
     \<and> loading' (run' [Connect, Send [(''data'', JStr ''a'')] None, Drain, Connect] client0')
     \<and> map fst (requests (run' [Connect, Send [(''data'', JStr ''a'')] None, Drain, Connect] client0')) = [1]
     \<and> \<not> disabled' (channel_close' 1 (run' [Connect, Succeed 0 assigned True] client0'))
     \<and> \<not> loading' (channel_close' 1 (run' [Connect, Succeed 0 assigned True] client0'))
     \<and> requests (channel_close' 1 (run' [Connect, Succeed 0 assigned True] client0')) = []
     \<and> next_request (channel_close' 1 (run' [Connect, Succeed 0 assigned True] client0')) = 2"
    by (simp add: controller_defs controller'_defs assigned_def)
  show ?thesis
    using ev
      one_request_in_flight[where es = "[Connect, Send [(''data'', JStr ''a'')] None, Drain, Connect]"
        and cid = Undefined and url = "''/lpio''" and data = "[]" and ackTimeout = 1000
        and responseTimeout = 25000 and b = "\<lparr>bms = 100, bmax = 10000, bfactor = 2, attempts = 0\<rparr>"
        and m = "\<lparr>buffer = [], started = True\<rparr>" and ms = "[]"
        and s = "run [Connect, Send [(''data'', JStr ''a'')] None, Drain, Connect] client0"
        and t = "run' [Connect, Send [(''data'', JStr ''a'')] None, Drain, Connect] client0'"]
      one_request_in_flight[where es = "[Connect, Send [(''data'', JStr ''a'')] None, Drain, Connect]"
        and cid = "JStr ''c1''" and user = "JStr ''u1''" and url = "''/lpio''" and disconnectedAfter = 5
        and ackTimeout = 10000 and b = "\<lparr>bms = 100, bmax = 10000, bfactor = 2, attempts = 0\<rparr>"
        and m = "\<lparr>buffer = [], started = True\<rparr>" and ms = "[]"
        and s = "run [Connect, Succeed 0 assigned False] client0"
        and t = "channel_close' 1 (run' [Connect, Succeed 0 assigned True] client0')"]
    unfolding client0_def client0'_def
    by simp
qed

subsection \<open>C3: an ack waiter is resolved once\<close>

text \<open>How the bookkeeping of \<open>waiters_ok\<close> changes when a waiter subscribes, is
  resolved by its ack, or times out.\<close>

lemma waiters_ok_empty: "waiters_ok [] [] [] N"
  by (simp add: waiters_ok_def)

lemma waiters_ok_subscribe:
  assumes "waiters_ok L T C N"
  shows "waiters_ok (L @ [(ev, N, cb)]) (T @ [(N, d, AckTimeout ev cb)]) C (Suc N)"
proof -
  have lt: "\<forall>l \<in> set L. fst (snd l) < N"
    using assms unfolding waiters_ok_def by fastforce
  show ?thesis using assms lt unfolding waiters_ok_def
    by (auto simp: less_Suc_eq image_iff) (fastforce+)?
qed

lemma waiters_ok_setTimeout:
  assumes "waiters_ok L T C N" and "\<not> is_ack_timeout t"
  shows "waiters_ok L (T @ [(N, d, t)]) C (Suc N)"
  using assms unfolding waiters_ok_def is_ack_timeout_def
  by (auto simp: less_Suc_eq image_iff) (fastforce+)?

lemma waiters_ok_resolve:
  assumes "waiters_ok (pre @ (e, tid, cb) # ls) T C N"
  shows "waiters_ok (pre @ ls) (filter (\<lambda>(i, d, t). i \<noteq> tid) T) (C @ [(tid, arg)]) N"
proof -
  let ?T' = "filter (\<lambda>(i, d, t). i \<noteq> tid) T"
  from assms have dT: "distinct (map fst T)" and bT: "\<forall>x \<in> set T. fst x < N"
    and dL: "distinct (map (\<lambda>l. fst (snd l)) (pre @ (e, tid, cb) # ls))"
    and lt: "\<forall>l \<in> set (pre @ (e, tid, cb) # ls). \<exists>d. (fst (snd l), d, AckTimeout (fst l) (snd (snd l))) \<in> set T"
    and tl: "\<forall>x \<in> set T. \<forall>ev cb'. snd (snd x) = AckTimeout ev cb' \<longrightarrow>
               (ev, fst x, cb') \<in> set (pre @ (e, tid, cb) # ls)"
    and dC: "distinct (map fst C)" and cT: "\<forall>c \<in> set C. fst c < N \<and> fst c \<notin> fst ` set T"
    unfolding waiters_ok_def by blast+
  have sT: "set ?T' = {x \<in> set T. fst x \<noteq> tid}" by auto
  have 1: "distinct (map fst ?T')" using dT by (simp add: distinct_map_filter)
  have 2: "\<forall>x \<in> set ?T'. fst x < N" using bT by auto
  have 3: "distinct (map (\<lambda>l. fst (snd l)) (pre @ ls))" using dL by auto
  have other: "\<forall>l \<in> set (pre @ ls). fst (snd l) \<noteq> tid" using dL by (auto simp: image_iff)
  have 4: "\<forall>l \<in> set (pre @ ls). \<exists>d. (fst (snd l), d, AckTimeout (fst l) (snd (snd l))) \<in> set ?T'"
  proof
    fix l assume l: "l \<in> set (pre @ ls)"
    then obtain d where "(fst (snd l), d, AckTimeout (fst l) (snd (snd l))) \<in> set T"
      using lt by fastforce
    moreover have "fst (snd l) \<noteq> tid" using other l by blast
    ultimately show "\<exists>d. (fst (snd l), d, AckTimeout (fst l) (snd (snd l))) \<in> set ?T'" by auto
  qed
  have 5: "\<forall>x \<in> set ?T'. \<forall>ev cb'. snd (snd x) = AckTimeout ev cb' \<longrightarrow> (ev, fst x, cb') \<in> set (pre @ ls)"
  proof (intro ballI allI impI)
    fix x ev cb' assume x: "x \<in> set ?T'" and a: "snd (snd x) = AckTimeout ev cb'"
    then have "(ev, fst x, cb') \<in> set (pre @ (e, tid, cb) # ls)" using tl by auto
    moreover have "fst x \<noteq> tid" using x by auto
    ultimately show "(ev, fst x, cb') \<in> set (pre @ ls)" by auto
  qed
  obtain d0 where tm: "(tid, d0, AckTimeout e cb) \<in> set T" using lt by fastforce
  have fresh: "tid \<notin> fst ` set C"
  proof
    assume "tid \<in> fst ` set C"
    then obtain c where "c \<in> set C" "fst c = tid" by auto
    then have "tid \<notin> fst ` set T" using cT by auto
    with tm show False by (auto simp: image_iff) 
  qed
  have 6: "distinct (map fst (C @ [(tid, arg)]))" using dC fresh by simp
  have 7: "\<forall>c \<in> set (C @ [(tid, arg)]). fst c < N \<and> fst c \<notin> fst ` set ?T'"
    using cT bT tm by (fastforce simp: image_iff)
  show ?thesis unfolding waiters_ok_def using 1 2 3 4 5 6 7 by blast
qed

lemma waiters_ok_fire:
  assumes "waiters_ok L T C N" and "(tid, d, t) \<in> set T" and "\<not> is_ack_timeout t"
  shows "waiters_ok L (filter (\<lambda>(i, d, t). i \<noteq> tid) T) (C @ [(tid, arg)]) N"
    and "waiters_ok L (filter (\<lambda>(i, d, t). i \<noteq> tid) T) C N"
proof -
  let ?T' = "filter (\<lambda>(i, d, t). i \<noteq> tid) T"
  from assms(1) have dT: "distinct (map fst T)" and bT: "\<forall>x \<in> set T. fst x < N"
    and dL: "distinct (map (\<lambda>l. fst (snd l)) L)"
    and lt: "\<forall>l \<in> set L. \<exists>d. (fst (snd l), d, AckTimeout (fst l) (snd (snd l))) \<in> set T"
    and tl: "\<forall>x \<in> set T. \<forall>ev cb'. snd (snd x) = AckTimeout ev cb' \<longrightarrow> (ev, fst x, cb') \<in> set L"
    and dC: "distinct (map fst C)" and cT: "\<forall>c \<in> set C. fst c < N \<and> fst c \<notin> fst ` set T"
    unfolding waiters_ok_def by blast+
  have 1: "distinct (map fst ?T')" using dT by (simp add: distinct_map_filter)
  have 2: "\<forall>x \<in> set ?T'. fst x < N" using bT by auto
  have uniq: "\<And>d' t'. (tid, d', t') \<in> set T \<Longrightarrow> t' = t"
    using dT assms(2) by (meson eq_key_imp_eq_value prod.inject)
  have 4: "\<forall>l \<in> set L. \<exists>d. (fst (snd l), d, AckTimeout (fst l) (snd (snd l))) \<in> set ?T'"
  proof
    fix l assume l: "l \<in> set L"
    then obtain d' where m: "(fst (snd l), d', AckTimeout (fst l) (snd (snd l))) \<in> set T"
      using lt by fastforce
    have "fst (snd l) \<noteq> tid"
    proof
      assume "fst (snd l) = tid"
      with m uniq have "AckTimeout (fst l) (snd (snd l)) = t" by auto
      with assms(3) show False by (auto simp: is_ack_timeout_def)
    qed
    with m show "\<exists>d. (fst (snd l), d, AckTimeout (fst l) (snd (snd l))) \<in> set ?T'" by auto
  qed
  have 5: "\<forall>x \<in> set ?T'. \<forall>ev cb'. snd (snd x) = AckTimeout ev cb' \<longrightarrow> (ev, fst x, cb') \<in> set L"
    using tl by auto
  have fresh: "tid \<notin> fst ` set C" using cT assms(2) by (force simp: image_iff)
  have 6: "distinct (map fst (C @ [(tid, arg)]))" using dC fresh by simp
  have 7: "\<forall>c \<in> set (C @ [(tid, arg)]). fst c < N \<and> fst c \<notin> fst ` set ?T'"
    using cT bT assms(2) by (fastforce simp: image_iff)
  have 8: "\<forall>c \<in> set C. fst c < N \<and> fst c \<notin> fst ` set ?T'"
    using cT by (auto simp: image_iff)
  show "waiters_ok L ?T' (C @ [(tid, arg)]) N"
    unfolding waiters_ok_def using 1 2 dL 4 5 6 7 by blast
  show "waiters_ok L ?T' C N"
    unfolding waiters_ok_def using 1 2 dL 4 5 dC 8 by blast
qed

lemma in_off_split:
  assumes "(e, tid, cb) \<in> set L" and "distinct (map (\<lambda>l. fst (snd l)) L)"
  shows "\<exists>pre ls. L = pre @ (e, tid, cb) # ls \<and> in_off e tid L = pre @ ls"
  using assms
proof (induction L)
  case Nil
  then show ?case by simp
next
  case (Cons a L)
  obtain e' t' cb' where a: "a = (e', t', cb')" by (cases a)
  show ?case
  proof (cases "t' = tid")
    case True
    then have "a = (e, tid, cb)" using Cons.prems a by (auto simp: image_iff)
    then show ?thesis by (intro exI[of _ "[]"] exI[of _ L]) simp
  next
    case False
    then have "(e, tid, cb) \<in> set L" using Cons.prems a by auto
    then obtain pre ls where "L = pre @ (e, tid, cb) # ls" "in_off e tid L = pre @ ls"
      using Cons.IH Cons.prems(2) by auto
    then show ?thesis using a False
      by (intro exI[of _ "a # pre"] exI[of _ ls]) simp
  qed
qed

text \<open>The invariant through the operations of \<^verbatim>\<open>part_000\<close>.\<close>

lemma preorder_waiters_rel: "preorder waiters_rel"
  by (simp add: preorder_def waiters_rel_def)

lemma waiters_rel_same:
  "in_emitter s' = in_emitter s \<Longrightarrow> timers s' = timers s \<Longrightarrow> calls s' = calls s
     \<Longrightarrow> next_timer s' = next_timer s \<Longrightarrow> waiters_rel s s'"
  by (simp add: waiters_rel_def waiters_inv_def)

lemma subscribeAck_waiters: "waiters_inv s \<Longrightarrow> waiters_inv (subscribeAck m cb s)"
  by (simp add: waiters_inv_def subscribeAck_def setTimeout_def Let_def waiters_ok_subscribe)

text \<open>Any relation the subscription of an ack waiter keeps, and that does not look at
  the record of events or at the listeners of \<open>out\<close>, is kept by an emission.\<close>

lemma out_dispatch_rel:
  assumes "preorder R" and "\<And>m cb s. R s (subscribeAck m cb s)"
  shows "out_dispatch ls ev args s = (r, ls', s') \<Longrightarrow> R s s'"
proof (induction ls arbitrary: s r ls' s')
  case Nil
  then show ?case using assms(1) by (simp add: preorder_def)
next
  case (Cons a ls)
  obtain e l where a: "a = (e, l)" by (cases a)
  show ?case
  proof (cases "e = ev")
    case False
    then obtain ls1 where "out_dispatch ls ev args s = (r, ls1, s')"
      using Cons.prems a by (auto split: prod.splits)
    with Cons.IH[of s r ls1 s'] show ?thesis by simp
  next
    case True
    show ?thesis
    proof (cases l)
      case (Handler h)
      show ?thesis
      proof (cases "h args")
        case None
        then obtain ls1 where "out_dispatch ls ev args s = (r, ls1, s')"
          using Cons.prems a True Handler by (auto split: prod.splits)
        with Cons.IH[of s r ls1 s'] show ?thesis by simp
      next
        case (Some x)
        then show ?thesis using Cons.prems a True Handler assms(1) by (auto simp: preorder_def)
      qed
    next
      case (AckDeferred m cb)
      with Cons.prems a True
      have "out_dispatch ls ev args (subscribeAck m cb s) = (r, ls', s')" by simp
      from Cons.IH[OF this] assms(2)[of s m cb] assms(1)
      show ?thesis unfolding preorder_def by blast
    qed
  qed
qed

lemma out_emit_rel:
  assumes "preorder R" and "\<And>m cb s. R s (subscribeAck m cb s)"
    and "\<And>s E. R s (s\<lparr>emitted := E\<rparr>)" and "\<And>s L. R s (s\<lparr>out_emitter := L\<rparr>)"
  shows "R s (snd (out_emit ev args s))"
proof -
  obtain r ls' s1 where d: "out_dispatch (out_emitter s) ev args (s\<lparr>emitted := emitted s @ [(ev, args)]\<rparr>) = (r, ls', s1)"
    by (metis prod_cases3)
  then have e: "snd (out_emit ev args s) = s1\<lparr>out_emitter := ls'\<rparr>" by (simp add: out_emit_def)
  have "R s (s\<lparr>emitted := emitted s @ [(ev, args)]\<rparr>)" by (rule assms(3))
  moreover have "R (s\<lparr>emitted := emitted s @ [(ev, args)]\<rparr>) s1"
    by (rule out_dispatch_rel[OF assms(1,2) d])
  moreover have "R s1 (s1\<lparr>out_emitter := ls'\<rparr>)" by (rule assms(4))
  ultimately show ?thesis using assms(1) e unfolding preorder_def by metis
qed

lemma emit_rel:
  assumes "preorder R" and "\<And>m cb s. R s (subscribeAck m cb s)"
    and "\<And>s E. R s (s\<lparr>emitted := E\<rparr>)" and "\<And>s L. R s (s\<lparr>out_emitter := L\<rparr>)"
  shows "preserves R (emit ev args)"
  unfolding preserves_def
proof
  fix s
  obtain r1 s1 where o: "out_emit ev args s = (r1, s1)" by (cases "out_emit ev args s")
  have 1: "R s s1" using out_emit_rel[OF assms, of s ev args] o by simp
  show "R s (snd (emit ev args s))"
  proof (cases r1)
    case None
    with o 1 show ?thesis by (simp add: emit_def)
  next
    case (Some e)
    with o have "snd (emit ev args s) = snd (out_emit ''error'' [e] s1)" by (simp add: emit_def)
    with 1 out_emit_rel[OF assms, of s1 "''error''" "[e]"] assms(1)
    show ?thesis unfolding preorder_def by metis
  qed
qed

lemma emit_waiters_rel: "preserves waiters_rel (emit ev args)"
proof (rule emit_rel[OF preorder_waiters_rel])
  show "\<And>m cb s. waiters_rel s (subscribeAck m cb s)"
    by (simp add: waiters_rel_def subscribeAck_waiters)
qed (simp_all add: waiters_rel_def waiters_inv_def)

text \<open>An ack event: the listeners still to be called are \<open>ls\<close>, those already passed
  over are \<open>pre\<close>.\<close>

lemma in_dispatch_waiters:
  "in_dispatch ls ev s = (r, ls', s') \<Longrightarrow>
   waiters_ok (pre @ ls) (timers s) (calls s) (next_timer s) \<Longrightarrow>
   waiters_ok (pre @ ls') (timers s') (calls s') (next_timer s')"
proof (induction ls arbitrary: s r ls' s' pre)
  case Nil
  then show ?case by simp
next
  case (Cons a ls)
  obtain e tid cb where a: "a = (e, tid, cb)" by (cases a)
  show ?case
  proof (cases "e = ev")
    case False
    then obtain ls1 where d: "in_dispatch ls ev s = (r, ls1, s')" and l: "ls' = a # ls1"
      using Cons.prems(1) a by (auto split: prod.splits)
    have "waiters_ok ((pre @ [a]) @ ls) (timers s) (calls s) (next_timer s)"
      using Cons.prems(2) by simp
    from Cons.IH[OF d this] l show ?thesis by simp
  next
    case True
    define s1 where "s1 = snd (call tid cb Undefined (clearTimeout tid s))"
    have f1: "timers s1 = filter (\<lambda>(i, d, t). i \<noteq> tid) (timers s)"
      "calls s1 = calls s @ [(tid, Undefined)]" "next_timer s1 = next_timer s"
      by (simp_all add: s1_def call_def clearTimeout_def)
    have w1: "waiters_ok (pre @ ls) (timers s1) (calls s1) (next_timer s1)"
      using waiters_ok_resolve[of pre e tid cb ls "timers s" "calls s" "next_timer s" Undefined]
        Cons.prems(2) a f1 by simp
    show ?thesis
    proof (cases "cb Undefined")
      case None
      then have "in_dispatch ls ev s1 = (r, ls', s')"
        using Cons.prems(1) a True by (simp add: s1_def call_def)
      from Cons.IH[OF this w1] show ?thesis .
    next
      case (Some x)
      then have "s' = s1" "ls' = ls"
        using Cons.prems(1) a True by (simp_all add: s1_def call_def)
      with w1 show ?thesis by simp
    qed
  qed
qed

lemma in_emit_waiters: "waiters_inv s \<Longrightarrow> waiters_inv (snd (in_emit ev s))"
proof -
  assume i: "waiters_inv s"
  obtain r ls' s1 where d: "in_dispatch (in_emitter s) ev s = (r, ls', s1)"
    by (metis prod_cases3)
  then have e: "snd (in_emit ev s) = s1\<lparr>in_emitter := ls'\<rparr>" by (simp add: in_emit_def)
  have "waiters_ok ([] @ ls') (timers s1) (calls s1) (next_timer s1)"
    using in_dispatch_waiters[OF d, of "[]"] i by (simp add: waiters_inv_def)
  then show ?thesis using e by (simp add: waiters_inv_def)
qed

lemma in_emit_waiters_rel: "preserves waiters_rel (in_emit ev)"
  by (simp add: preserves_def waiters_rel_def in_emit_waiters)

lemma fire_waiters: "waiters_inv s \<Longrightarrow> waiters_inv (snd (fire tid s))"
proof -
  assume i: "waiters_inv s"
  show ?thesis
  proof (cases "map_of (timers s) tid")
    case None
    then show ?thesis using i by (simp add: fire_def)
  next
    case (Some p)
    obtain d t where p: "p = (d, t)" by (cases p)
    have mem: "(tid, d, t) \<in> set (timers s)" using Some p by (simp add: map_of_SomeD)
    show ?thesis
    proof (cases t)
      case (Validation cb err)
      then have "\<not> is_ack_timeout t" by (simp add: is_ack_timeout_def)
      from waiters_ok_fire(1)[OF i[unfolded waiters_inv_def] mem this, of err]
      show ?thesis using Some p Validation
        by (simp add: fire_def Let_def call_def clearTimeout_def waiters_inv_def)
    next
      case (AckTimeout ev cb)
      have "(ev, tid, cb) \<in> set (in_emitter s)"
        using i mem AckTimeout unfolding waiters_inv_def waiters_ok_def by fastforce
      moreover have "distinct (map (\<lambda>l. fst (snd l)) (in_emitter s))"
        using i unfolding waiters_inv_def waiters_ok_def by blast
      ultimately obtain pre ls where L: "in_emitter s = pre @ (ev, tid, cb) # ls"
        "in_off ev tid (in_emitter s) = pre @ ls"
        using in_off_split by blast
      from waiters_ok_resolve[of pre ev tid cb ls "timers s" "calls s" "next_timer s"
          "js_Error ''Delivery timeout.''"] i L(1)
      have "waiters_ok (pre @ ls) (filter (\<lambda>(i, d, t). i \<noteq> tid) (timers s))
              (calls s @ [(tid, js_Error ''Delivery timeout.'')]) (next_timer s)"
        by (simp add: waiters_inv_def)
      then show ?thesis using Some p AckTimeout L(2)
        by (simp add: fire_def Let_def call_def clearTimeout_def waiters_inv_def)
    next
      case Reopen
      then have "\<not> is_ack_timeout t" by (simp add: is_ack_timeout_def)
      from waiters_ok_fire(2)[OF i[unfolded waiters_inv_def] mem this]
      show ?thesis using Some p Reopen
        by (simp add: fire_def Let_def clearTimeout_def waiters_inv_def reopen_timer_def
            open_def channel_open_def)
    next
      case (ReopenWith ms)
      then have "\<not> is_ack_timeout t" by (simp add: is_ack_timeout_def)
      from waiters_ok_fire(2)[OF i[unfolded waiters_inv_def] mem this]
      show ?thesis using Some p ReopenWith
        by (simp add: fire_def Let_def clearTimeout_def waiters_inv_def)
    qed
  qed
qed

lemma waiters_inv_cong:
  "in_emitter s' = in_emitter s \<Longrightarrow> timers s' = timers s \<Longrightarrow> calls s' = calls s
     \<Longrightarrow> next_timer s' = next_timer s \<Longrightarrow> waiters_inv s' = waiters_inv s"
  by (simp add: waiters_inv_def)

lemma open_waiters: "waiters_inv (open ms s) = waiters_inv s"
  by (rule waiters_inv_cong) (simp_all add: open_def channel_open_def Let_def)

lemma channel_close_waiters: "waiters_inv (channel_close rid s) = waiters_inv s"
  by (rule waiters_inv_cong) (simp_all add: channel_close_def onRequestClose_def)

lemma setTimeout_waiters:
  "\<not> is_ack_timeout t \<Longrightarrow> waiters_inv s \<Longrightarrow> waiters_inv (setTimeout t d s)"
  by (simp add: waiters_inv_def setTimeout_def waiters_ok_setTimeout)

lemma send_waiters: "waiters_inv s \<Longrightarrow> waiters_inv (send options callback s)"
proof -
  assume i: "waiters_inv s"
  define options1 where "options1 = (if \<not> truthy (js_get options ''type'')
                     then js_set options ''type'' (JStr ''data'') else options)"
  define message where "message = js_spread [(''id'', JStr (show_nat (uid s)))] options1"
  define s2 where "s2 = (uid_next s)\<lparr>multiplexer := mux_add [message] (multiplexer (uid_next s))\<rparr>"
  have w2: "waiters_inv s2" using i by (simp add: s2_def uid_next_def waiters_inv_def)
  have v: "\<And>cb. waiters_inv (setTimeout (Validation cb (js_Error ''Undefined property \"data\"'')) 0 s)"
    using i by (intro setTimeout_waiters) (simp_all add: is_ack_timeout_def)
  have d: "\<And>cb. waiters_inv (s2\<lparr>out_emitter := out_emitter s2 @ [(''success'', AckDeferred message cb)]\<rparr>)"
    using w2 by (simp add: waiters_inv_def)
  have a: "\<And>cb. waiters_inv (subscribeAck message cb s2)" using w2 by (rule subscribeAck_waiters)
  have "send options callback s =
     (if js_get options1 ''type'' = JStr ''data'' \<and> \<not> truthy (js_get options1 ''data'') then
           (case callback of
              Some cb \<Rightarrow> setTimeout (Validation cb (js_Error ''Undefined property \"data\"'')) 0 s
            | None \<Rightarrow> s)
      else case callback of
                 None \<Rightarrow> s2
               | Some cb \<Rightarrow>
                   if \<not> connected s2 \<or> reopening s2
                   then s2\<lparr>out_emitter := out_emitter s2 @ [(''success'', AckDeferred message cb)]\<rparr>
                   else subscribeAck message cb s2)"
    by (simp add: send_def Let_def options1_def message_def s2_def cong: option.case_cong if_cong)
  then show ?thesis using i w2 v d a by (auto split: option.splits)
qed

lemma onConnected_waiters_rel: "preserves waiters_rel onConnected"
proof -
  have "preserves waiters_rel (\<lambda>s. emit ''connected'' [] (s\<lparr>connected := True\<rparr>))"
    unfolding preserves_def
  proof
    fix s
    have "waiters_rel (s\<lparr>connected := True\<rparr>) (snd (emit ''connected'' [] (s\<lparr>connected := True\<rparr>)))"
      using emit_waiters_rel by (simp add: preserves_def)
    then show "waiters_rel s (snd (emit ''connected'' [] (s\<lparr>connected := True\<rparr>)))"
      by (simp add: waiters_rel_def waiters_inv_def)
  qed
  then show ?thesis unfolding onConnected_def
    by (intro preserves_if preserves_skip preorder_waiters_rel)
qed

lemma onDisconnected_waiters_rel: "preserves waiters_rel onDisconnected"
proof -
  have "preserves waiters_rel (\<lambda>s. emit ''disconnected'' []
             (s\<lparr>multiplexer := mux_stop (multiplexer s), client_id := Undefined, connected := False\<rparr>))"
    unfolding preserves_def
  proof
    fix s :: client
    let ?s = "s\<lparr>multiplexer := mux_stop (multiplexer s), client_id := Undefined, connected := False\<rparr>"
    have "waiters_rel ?s (snd (emit ''disconnected'' [] ?s))"
      using emit_waiters_rel by (simp add: preserves_def)
    then show "waiters_rel s (snd (emit ''disconnected'' [] ?s))"
      by (simp add: waiters_rel_def waiters_inv_def)
  qed
  then show ?thesis unfolding onDisconnected_def
    by (intro preserves_if preserves_skip preorder_waiters_rel)
qed

lemma disconnect_waiters_rel: "preserves waiters_rel disconnect"
  unfolding preserves_def
proof
  fix s
  define s2 where "s2 = (case request (s\<lparr>disabled := True\<rparr>) of
      Some rid \<Rightarrow> channel_close rid (s\<lparr>disabled := True\<rparr>) | None \<Rightarrow> s\<lparr>disabled := True\<rparr>)"
  have "waiters_inv s2 = waiters_inv (s\<lparr>disabled := True\<rparr>)"
    by (simp add: s2_def channel_close_waiters split: option.splits)
  then have "waiters_inv s2 = waiters_inv s" by (simp add: waiters_inv_def)
  moreover have "waiters_rel s2 (snd (onDisconnected s2))"
    using onDisconnected_waiters_rel by (simp add: preserves_def)
  ultimately show "waiters_rel s (snd (disconnect s))"
    by (simp add: disconnect_def Let_def s2_def waiters_rel_def)
qed

lemma reopen_waiters_rel: "preserves waiters_rel reopen"
  unfolding preserves_def
proof
  fix s
  show "waiters_rel s (snd (reopen s))"
  proof (cases "reopening s")
    case True
    then show ?thesis by (simp add: reopen_def waiters_rel_def)
  next
    case False
    define d where "d = duration (backoff s)"
    define s3 where "s3 = s\<lparr>backoff := duration_next (backoff s), reopening := True,
                              multiplexer := mux_stop (multiplexer s)\<rparr>"
    have p: "preserves waiters_rel
       (andThen (\<lambda>s. if d \<ge> bmax (backoff s) then onDisconnected s else (None, s))
                    (returns (setTimeout Reopen d)))"
      by (intro preserves_andThen preserves_if preserves_skip preserves_returns
          onDisconnected_waiters_rel preorder_waiters_rel)
         (simp add: waiters_rel_def setTimeout_waiters is_ack_timeout_def)
    have "reopen s =
        andThen (\<lambda>s. if d \<ge> bmax (backoff s) then onDisconnected s else (None, s))
          (returns (setTimeout Reopen d)) s3"
      using False by (simp add: reopen_def Let_def d_def s3_def)
    moreover have "waiters_inv s3 = waiters_inv s" by (simp add: waiters_inv_def s3_def)
    ultimately show ?thesis using p by (simp add: preserves_def waiters_rel_def)
  qed
qed

lemma onMessage_waiters_rel: "preserves waiters_rel (onMessage m)"
  unfolding onMessage_def
  by (intro preserves_andThen preserves_if preserves_returns preserves_skip
      emit_waiters_rel in_emit_waiters_rel preorder_waiters_rel)
     (simp add: waiters_rel_def waiters_inv_def)

lemma onRequestError_waiters_rel: "preserves waiters_rel (onRequestError err)"
  unfolding onRequestError_def onUnauthorized_def
  by (intro preserves_andThen preserves_if emit_waiters_rel disconnect_waiters_rel
      reopen_waiters_rel preorder_waiters_rel)

lemma onRequestSuccess_waiters_rel: "preserves waiters_rel (onRequestSuccess res)"
proof -
  have e: "preserves waiters_rel (\<lambda>s. emit ''set:id'' [client_id s] s)"
    using emit_waiters_rel by (simp add: preserves_def)
  show ?thesis unfolding onRequestSuccess_def
    by (intro preserves_andThen preserves_if preserves_returns preserves_skip preserves_forEach
        emit_waiters_rel onConnected_waiters_rel onMessage_waiters_rel e preorder_waiters_rel)
       (simp_all add: waiters_rel_def open_waiters Let_def, simp_all add: waiters_inv_def)
qed

lemma step_waiters: "waiters_inv s \<Longrightarrow> waiters_inv (step e s)"
proof (cases e)
  case Connect
  assume "waiters_inv s"
  then have "waiters_inv (s\<lparr>disabled := False\<rparr>)" by (simp add: waiters_inv_def)
  then show ?thesis using Connect \<open>waiters_inv s\<close> by (simp add: connect_def open_waiters)
next
  case Disconnect
  assume "waiters_inv s"
  then show ?thesis using Disconnect disconnect_waiters_rel
    by (simp add: preserves_def waiters_rel_def)
next
  case (Send options callback)
  assume "waiters_inv s"
  then show ?thesis using Send by (simp add: send_waiters)
next
  case (On ev h)
  assume "waiters_inv s"
  then show ?thesis using On by (simp add: waiters_inv_def)
next
  case Drain
  assume i: "waiters_inv s"
  have "waiters_inv (s\<lparr>multiplexer := mux_reset (multiplexer s)\<rparr>)"
    using i by (simp add: waiters_inv_def)
  then have "waiters_inv (onDrain (buffer (multiplexer s)) (s\<lparr>multiplexer := mux_reset (multiplexer s)\<rparr>))"
    unfolding onDrain_def by (simp add: open_waiters channel_close_waiters split: option.splits)
  then show ?thesis using Drain i by simp
next
  case (Fire tid)
  assume "waiters_inv s"
  then show ?thesis using Fire by (simp add: fire_waiters)
next
  case (Succeed rid res close_first)
  assume i: "waiters_inv s"
  have a: "\<And>s. waiters_inv s \<Longrightarrow> waiters_inv (snd (onRequestSuccess res s))"
    using onRequestSuccess_waiters_rel by (simp add: preserves_def waiters_rel_def)
  show ?thesis using Succeed i a
    by (simp add: channel_close_waiters split: option.splits)
next
  case (Fail rid err close_first)
  assume i: "waiters_inv s"
  have a: "\<And>ms s. waiters_inv s \<Longrightarrow> waiters_inv (snd (onError ms err s))"
  proof -
    fix ms s assume "waiters_inv s"
    then have "waiters_inv (s\<lparr>multiplexer := mux_add ms (multiplexer s)\<rparr>)"
      by (simp add: waiters_inv_def)
    then show "waiters_inv (snd (onError ms err s))"
      using onRequestError_waiters_rel
      by (simp add: onError_def preserves_def waiters_rel_def)
  qed
  show ?thesis using Fail i a
    by (simp add: channel_close_waiters split: option.splits)
qed

lemma run_waiters: "waiters_inv s \<Longrightarrow> waiters_inv (run es s)"
  unfolding run_def by (induction es arbitrary: s) (simp_all add: step_waiters)

lemma new_Client_waiters: "waiters_inv (new_Client cid url data ackTimeout responseTimeout b m)"
  by (simp add: waiters_inv_def new_Client_def waiters_ok_empty)

text \<open>The invariant through the operations of \<^verbatim>\<open>Client.js\<close>.\<close>

lemma preorder_waiters_rel': "preorder waiters_rel'"
  by (simp add: preorder_def waiters_rel'_def)

lemma acks_of_append: "acks_of (xs @ ys) = acks_of xs @ acks_of ys"
  by (induction xs rule: acks_of.induct) simp_all

lemma acks_of_off': "acks_of (off' ev tid L) = in_off ev tid (acks_of L)"
  by (induction L rule: acks_of.induct) simp_all

lemma waiters_inv'_cong:
  "callbacks s' = callbacks s \<Longrightarrow> timers s' = timers s \<Longrightarrow> calls s' = calls s
     \<Longrightarrow> next_timer s' = next_timer s \<Longrightarrow> waiters_inv' s' = waiters_inv' s"
  by (simp add: waiters_inv'_def)

lemma dispatch'_waiters:
  "dispatch' ls ev args s = (r, ls', s') \<Longrightarrow>
   waiters_ok (acks_of (pre @ ls)) (timers s) (calls s) (next_timer s) \<Longrightarrow>
   waiters_ok (acks_of (pre @ ls')) (timers s') (calls s') (next_timer s')"
proof (induction ls arbitrary: s r ls' s' pre)
  case Nil
  then show ?case by simp
next
  case (Cons a ls)
  obtain e l where a: "a = (e, l)" by (cases a)
  have skip: "\<And>ls1. dispatch' ls ev args s = (r, ls1, s') \<Longrightarrow> ls' = a # ls1 \<Longrightarrow> ?case"
  proof -
    fix ls1 assume d: "dispatch' ls ev args s = (r, ls1, s')" and l: "ls' = a # ls1"
    have "waiters_ok (acks_of ((pre @ [a]) @ ls)) (timers s) (calls s) (next_timer s)"
      using Cons.prems(2) by simp
    from Cons.IH[OF d this] l show ?case by simp
  qed
  show ?case
  proof (cases "e = ev")
    case False
    then obtain ls1 where "dispatch' ls ev args s = (r, ls1, s')" and "ls' = a # ls1"
      using Cons.prems(1) a by (auto split: prod.splits)
    then show ?thesis by (rule skip)
  next
    case True
    show ?thesis
    proof (cases l)
      case (Handler' h)
      show ?thesis
      proof (cases "h args")
        case None
        then obtain ls1 where "dispatch' ls ev args s = (r, ls1, s')" and "ls' = a # ls1"
          using Cons.prems(1) a True Handler' by (auto split: prod.splits)
        then show ?thesis by (rule skip)
      next
        case (Some x)
        then have "s' = s" "ls' = a # ls" using Cons.prems(1) a True Handler' by simp_all
        then show ?thesis using Cons.prems(2) by simp
      qed
    next
      case (OnAck' tid cb)
      define s1 where "s1 = snd (call tid cb Undefined (clearTimeout tid s))"
      have f1: "timers s1 = filter (\<lambda>(i, d, t). i \<noteq> tid) (timers s)"
        "calls s1 = calls s @ [(tid, Undefined)]" "next_timer s1 = next_timer s"
        by (simp_all add: s1_def call_def clearTimeout_def)
      have w1: "waiters_ok (acks_of (pre @ ls)) (timers s1) (calls s1) (next_timer s1)"
        using waiters_ok_resolve[of "acks_of pre" e tid cb "acks_of ls" "timers s" "calls s"
            "next_timer s" Undefined]
          Cons.prems(2) a OnAck' f1 by (simp add: acks_of_append)
      show ?thesis
      proof (cases "cb Undefined")
        case None
        then have "dispatch' ls ev args s1 = (r, ls', s')"
          using Cons.prems(1) a True OnAck' by (simp add: s1_def call_def)
        from Cons.IH[OF this w1] show ?thesis .
      next
        case (Some x)
        then have "s' = s1" "ls' = ls"
          using Cons.prems(1) a True OnAck' by (simp_all add: s1_def call_def)
        with w1 show ?thesis by simp
      qed
    qed
  qed
qed

lemma emit'_waiters: "waiters_inv' s \<Longrightarrow> waiters_inv' (snd (emit' ev args s))"
proof -
  assume i: "waiters_inv' s"
  obtain r ls' s1 where d: "dispatch' (callbacks s) ev args (s\<lparr>emitted := emitted s @ [(ev, args)]\<rparr>) = (r, ls', s1)"
    by (metis prod_cases3)
  then have e: "snd (emit' ev args s) = s1\<lparr>callbacks := ls'\<rparr>" by (simp add: emit'_def)
  have "waiters_ok (acks_of ([] @ ls')) (timers s1) (calls s1) (next_timer s1)"
    using dispatch'_waiters[OF d, of "[]"] i by (simp add: waiters_inv'_def)
  then show ?thesis using e by (simp add: waiters_inv'_def)
qed

lemma emit'_waiters_rel': "preserves waiters_rel' (emit' ev args)"
  by (simp add: preserves_def waiters_rel'_def emit'_waiters)

lemma emit'_upd_waiters_rel':
  "preserves waiters_rel' (\<lambda>s. emit' ev args (s\<lparr>connected' := c\<rparr>))"
  unfolding preserves_def
proof
  fix s :: client'
  have "waiters_inv' (s\<lparr>connected' := c\<rparr>) = waiters_inv' s" by (simp add: waiters_inv'_def)
  then show "waiters_rel' s (snd (emit' ev args (s\<lparr>connected' := c\<rparr>)))"
    using emit'_waiters[of "s\<lparr>connected' := c\<rparr>" ev args] by (simp add: waiters_rel'_def)
qed

lemma open'_waiters: "waiters_inv' (open' ms s) = waiters_inv' s"
  by (rule waiters_inv'_cong) (simp_all add: open'_def channel_open'_def Let_def)

lemma channel_close'_waiters: "waiters_inv' (channel_close' rid s) = waiters_inv' s"
  by (rule waiters_inv'_cong) (simp_all add: channel_close'_def onRequestClose'_def)

lemma setTimeout_waiters':
  "\<not> is_ack_timeout t \<Longrightarrow> waiters_inv' s \<Longrightarrow> waiters_inv' (setTimeout t d s)"
  by (simp add: waiters_inv'_def setTimeout_def waiters_ok_setTimeout)

lemma send'_waiters: "waiters_inv' s \<Longrightarrow> waiters_inv' (send' options callback s)"
proof -
  assume i: "waiters_inv' s"
  have v: "\<And>cb e. waiters_inv' (setTimeout (Validation cb e) 0 s)"
    using i by (intro setTimeout_waiters') (simp_all add: is_ack_timeout_def)
  have a: "\<And>ev cb m. waiters_inv'
      (setTimeout (AckTimeout ev cb) (options_ackTimeout s)
        ((uid_next s)\<lparr>multiplexer' := m, callbacks := callbacks s @ [(ev, OnAck' (next_timer s) cb)]\<rparr>))"
    using i waiters_ok_subscribe[of "acks_of (callbacks s)" "timers s" "calls s" "next_timer s"]
    by (simp add: waiters_inv'_def setTimeout_def uid_next_def acks_of_append)
  show ?thesis using v a
    by (auto simp: send'_def Let_def uid_next_def split: option.splits)
qed

lemma fire'_waiters: "waiters_inv' s \<Longrightarrow> waiters_inv' (snd (fire' tid s))"
proof -
  assume i: "waiters_inv' s"
  show ?thesis
  proof (cases "map_of (timers s) tid")
    case None
    then show ?thesis using i by (simp add: fire'_def)
  next
    case (Some p)
    obtain d t where p: "p = (d, t)" by (cases p)
    have mem: "(tid, d, t) \<in> set (timers s)" using Some p by (simp add: map_of_SomeD)
    show ?thesis
    proof (cases t)
      case (Validation cb err)
      then have "\<not> is_ack_timeout t" by (simp add: is_ack_timeout_def)
      from waiters_ok_fire(1)[OF i[unfolded waiters_inv'_def] mem this, of err]
      show ?thesis using Some p Validation
        by (simp add: fire'_def Let_def call_def clearTimeout_def waiters_inv'_def)
    next
      case (AckTimeout ev cb)
      have "(ev, tid, cb) \<in> set (acks_of (callbacks s))"
        using i mem AckTimeout unfolding waiters_inv'_def waiters_ok_def by fastforce
      moreover have "distinct (map (\<lambda>l. fst (snd l)) (acks_of (callbacks s)))"
        using i unfolding waiters_inv'_def waiters_ok_def by blast
      ultimately obtain pre ls where L: "acks_of (callbacks s) = pre @ (ev, tid, cb) # ls"
        "in_off ev tid (acks_of (callbacks s)) = pre @ ls"
        using in_off_split by blast
      from waiters_ok_resolve[of pre ev tid cb ls "timers s" "calls s" "next_timer s"
          "js_Error ''Delivery timeout.''"] i L(1)
      have "waiters_ok (pre @ ls) (filter (\<lambda>(i, d, t). i \<noteq> tid) (timers s))
              (calls s @ [(tid, js_Error ''Delivery timeout.'')]) (next_timer s)"
        by (simp add: waiters_inv'_def)
      then show ?thesis using Some p AckTimeout L(2)
        by (simp add: fire'_def Let_def call_def clearTimeout_def waiters_inv'_def acks_of_off')
    next
      case Reopen
      then have "\<not> is_ack_timeout t" by (simp add: is_ack_timeout_def)
      from waiters_ok_fire(2)[OF i[unfolded waiters_inv'_def] mem this]
      show ?thesis using Some p Reopen
        by (simp add: fire'_def Let_def clearTimeout_def waiters_inv'_def)
    next
      case (ReopenWith ms)
      then have "\<not> is_ack_timeout t" by (simp add: is_ack_timeout_def)
      from waiters_ok_fire(2)[OF i[unfolded waiters_inv'_def] mem this]
      show ?thesis using Some p ReopenWith
        by (simp add: fire'_def Let_def clearTimeout_def waiters_inv'_def
            open'_def channel_open'_def)
    qed
  qed
qed

lemma onMessage'_waiters_rel': "preserves waiters_rel' (onMessage' m)"
  unfolding onMessage'_def
  by (intro preserves_andThen preserves_if preserves_returns emit'_waiters_rel'
      preorder_waiters_rel')
     (simp add: waiters_rel'_def waiters_inv'_def)

lemma onRequestSuccess'_waiters_rel': "preserves waiters_rel' (onRequestSuccess' res)"
  unfolding onRequestSuccess'_def
  by (intro preserves_andThen preserves_if preserves_returns preserves_skip preserves_forEach
      emit'_upd_waiters_rel' onMessage'_waiters_rel' preorder_waiters_rel')
     (simp_all add: waiters_rel'_def open'_waiters, simp_all add: waiters_inv'_def)

lemma onRequestError'_waiters_rel': "preserves waiters_rel' (onRequestError' ms err)"
proof -
  have r: "\<And>s. waiters_rel' s (reopen' ms s)"
  proof -
    fix s :: client'
    have "waiters_inv' (s\<lparr>backoff' := duration_next (backoff' s)\<rparr>) = waiters_inv' s"
      by (simp add: waiters_inv'_def)
    then show "waiters_rel' s (reopen' ms s)"
      using setTimeout_waiters'[of "ReopenWith ms" "s\<lparr>backoff' := duration_next (backoff' s)\<rparr>"
          "duration (backoff' s)"]
      by (simp add: reopen'_def waiters_rel'_def is_ack_timeout_def)
  qed
  show ?thesis unfolding onRequestError'_def
    by (intro preserves_andThen preserves_if preserves_returns preserves_skip
        emit'_upd_waiters_rel' emit'_waiters_rel' preorder_waiters_rel' r)
qed

lemma connect'_waiters: "waiters_inv' s \<Longrightarrow> waiters_inv' (snd (connect' s))"
proof -
  assume i: "waiters_inv' s"
  have e: "\<And>e. waiters_inv' (snd (emit' ''error'' [e] s))" using i by (rule emit'_waiters)
  have o: "waiters_inv' (open' [] (s\<lparr>disabled' := False, drain_listeners := drain_listeners s + 1\<rparr>))"
    using i by (simp add: open'_waiters) (simp add: waiters_inv'_def)
  show ?thesis using i e o by (simp add: connect'_def Let_def)
qed

lemma disconnect'_waiters: "waiters_inv' s \<Longrightarrow> waiters_inv' (snd (disconnect' s))"
proof -
  assume i: "waiters_inv' s"
  define s1 where "s1 = s\<lparr>disabled' := True, connected' := False, drain_listeners := 0\<rparr>"
  define s2 where "s2 = (case request' s1 of Some rid \<Rightarrow> channel_close' rid s1 | None \<Rightarrow> s1)"
  have "waiters_inv' s1" using i by (simp add: s1_def waiters_inv'_def)
  then have 2: "waiters_inv' s2"
    by (auto simp: s2_def channel_close'_waiters split: option.splits)
  then have "waiters_inv' (snd (emit' ''disconnected'' [] s2))" by (rule emit'_waiters)
  moreover have "disconnect' s = (if connected' s then emit' ''disconnected'' [] s2 else (None, s2))"
    by (simp add: disconnect'_def Let_def s1_def s2_def split: option.splits)
  ultimately show ?thesis using 2 by simp
qed

lemma onDrain'_times_waiters: "waiters_inv' s \<Longrightarrow> waiters_inv' ((onDrain' ms ^^ n) s)"
  by (induction n)
     (simp_all add: onDrain'_def open'_waiters channel_close'_waiters split: option.splits)

lemma step'_waiters: "waiters_inv' s \<Longrightarrow> waiters_inv' (step' e s)"
proof (cases e)
  case Connect
  assume "waiters_inv' s"
  then show ?thesis using Connect by (simp add: connect'_waiters)
next
  case Disconnect
  assume "waiters_inv' s"
  then show ?thesis using Disconnect by (simp add: disconnect'_waiters)
next
  case (Send options callback)
  assume "waiters_inv' s"
  then show ?thesis using Send by (simp add: send'_waiters)
next
  case (On ev h)
  assume "waiters_inv' s"
  then show ?thesis using On by (simp add: waiters_inv'_def acks_of_append)
next
  case Drain
  assume i: "waiters_inv' s"
  have "waiters_inv' (s\<lparr>multiplexer' := mux_reset (multiplexer' s)\<rparr>)"
    using i by (simp add: waiters_inv'_def)
  then show ?thesis using Drain i by (simp add: onDrain'_times_waiters)
next
  case (Fire tid)
  assume "waiters_inv' s"
  then show ?thesis using Fire by (simp add: fire'_waiters)
next
  case (Succeed rid res close_first)
  assume i: "waiters_inv' s"
  have a: "\<And>s. waiters_inv' s \<Longrightarrow> waiters_inv' (snd (onRequestSuccess' res s))"
    using onRequestSuccess'_waiters_rel' by (simp add: preserves_def waiters_rel'_def)
  show ?thesis using Succeed i a
    by (simp add: channel_close'_waiters split: option.splits)
next
  case (Fail rid err close_first)
  assume i: "waiters_inv' s"
  have a: "\<And>ms s. waiters_inv' s \<Longrightarrow> waiters_inv' (snd (onRequestError' ms err s))"
    using onRequestError'_waiters_rel' by (simp add: preserves_def waiters_rel'_def)
  show ?thesis using Fail i a
    by (simp add: channel_close'_waiters split: option.splits)
qed

lemma run'_waiters: "waiters_inv' s \<Longrightarrow> waiters_inv' (run' es s)"
  unfolding run'_def by (induction es arbitrary: s) (simp_all add: step'_waiters)

lemma new_Client'_waiters:
  "waiters_inv' (new_Client' cid user url disconnectedAfter ackTimeout b m)"
  by (simp add: waiters_inv'_def new_Client'_def waiters_ok_empty)

text \<open>The two outcomes of a waiter.\<close>

lemma waiters_ok_pending:
  assumes "waiters_ok L T C N" and "(ev, tid, cb) \<in> set L"
  shows "\<exists>d. map_of T tid = Some (d, AckTimeout ev cb)" and "tid \<notin> fst ` set C"
proof -
  from assms obtain d where m: "(tid, d, AckTimeout ev cb) \<in> set T"
    unfolding waiters_ok_def by fastforce
  moreover have "distinct (map fst T)" using assms(1) unfolding waiters_ok_def by blast
  ultimately have "map_of T tid = Some (d, AckTimeout ev cb)" by simp
  then show "\<exists>d. map_of T tid = Some (d, AckTimeout ev cb)" by blast
  show "tid \<notin> fst ` set C"
  proof
    assume "tid \<in> fst ` set C"
    then obtain c where "c \<in> set C" "fst c = tid" by auto
    then have "tid \<notin> fst ` set T" using assms(1) unfolding waiters_ok_def by blast
    with m show False by (force simp: image_iff)
  qed
qed

lemma filter_distinct_le1:
  "distinct (map fst C) \<Longrightarrow> length (filter (\<lambda>c. fst c = tid) C) \<le> 1"
  by (induction C) (auto simp: filter_empty_conv image_iff)

lemma filter_distinct_mem:
  "distinct (map fst C) \<Longrightarrow> (tid, arg) \<in> set C \<Longrightarrow> map snd (filter (\<lambda>c. fst c = tid) C) = [arg]"
  by (induction C) (auto simp: filter_empty_conv image_iff)

lemma waiters_ok_called:
  assumes "waiters_ok L T C N"
  shows "length (filter (\<lambda>c. fst c = tid) C) \<le> 1"
    and "tid \<in> fst ` set C \<Longrightarrow> map_of T tid = None \<and> (\<forall>l \<in> set L. fst (snd l) \<noteq> tid)"
proof -
  show "length (filter (\<lambda>c. fst c = tid) C) \<le> 1"
  proof -
    have "distinct (map fst C)" using assms unfolding waiters_ok_def by blast
    then show ?thesis by (rule filter_distinct_le1)
  qed
  assume c: "tid \<in> fst ` set C"
  then have n: "tid \<notin> fst ` set T" using assms unfolding waiters_ok_def by auto
  then have 1: "map_of T tid = None" by (simp add: map_of_eq_None_iff)
  have 2: "\<forall>l \<in> set L. fst (snd l) \<noteq> tid"
  proof
    fix l assume "l \<in> set L"
    then obtain d where "(fst (snd l), d, AckTimeout (fst l) (snd (snd l))) \<in> set T"
      using assms unfolding waiters_ok_def by fastforce
    with n show "fst (snd l) \<noteq> tid" by (force simp: image_iff)
  qed
  from 1 2 show "map_of T tid = None \<and> (\<forall>l \<in> set L. fst (snd l) \<noteq> tid)" by simp
qed

text \<open>The calls an ack event makes are calls of the listeners it was given.\<close>

lemma in_dispatch_calls:
  "in_dispatch ls ev s = (r, ls', s') \<Longrightarrow>
     \<exists>C. calls s' = calls s @ C \<and> (\<forall>c \<in> set C. fst c \<in> (\<lambda>l. fst (snd l)) ` set ls \<and> snd c = Undefined)"
proof (induction ls arbitrary: s r ls' s')
  case Nil
  then show ?case by simp
next
  case (Cons a ls)
  obtain e tid cb where a: "a = (e, tid, cb)" by (cases a)
  show ?case
  proof (cases "e = ev")
    case False
    then obtain ls1 where "in_dispatch ls ev s = (r, ls1, s')"
      using Cons.prems a by (auto split: prod.splits)
    from Cons.IH[OF this] show ?thesis by auto
  next
    case True
    define s1 where "s1 = snd (call tid cb Undefined (clearTimeout tid s))"
    have c1: "calls s1 = calls s @ [(tid, Undefined)]" by (simp add: s1_def call_def clearTimeout_def)
    show ?thesis
    proof (cases "cb Undefined")
      case None
      then have "in_dispatch ls ev s1 = (r, ls', s')"
        using Cons.prems a True by (simp add: s1_def call_def)
      from Cons.IH[OF this] obtain C where "calls s' = calls s1 @ C"
        "\<forall>c \<in> set C. fst c \<in> (\<lambda>l. fst (snd l)) ` set ls \<and> snd c = Undefined" by blast
      then show ?thesis using c1 a
        by (intro exI[of _ "(tid, Undefined) # C"]) auto
    next
      case (Some x)
      then have "s' = s1" using Cons.prems a True by (simp add: s1_def call_def)
      then show ?thesis using c1 a by (intro exI[of _ "[(tid, Undefined)]"]) auto
    qed
  qed
qed

lemma in_dispatch_resolves:
  "in_dispatch ls ev s = (r, ls', s') \<Longrightarrow> (ev, tid, cb) \<in> set ls \<Longrightarrow>
     (tid, Undefined) \<in> set (calls s') \<or> (r \<noteq> None \<and> (ev, tid, cb) \<in> set ls')"
proof (induction ls arbitrary: s r ls' s')
  case Nil
  then show ?case by simp
next
  case (Cons a ls)
  obtain e t c where a: "a = (e, t, c)" by (cases a)
  show ?case
  proof (cases "e = ev")
    case False
    then obtain ls1 where d: "in_dispatch ls ev s = (r, ls1, s')" and l: "ls' = a # ls1"
      using Cons.prems(1) a by (auto split: prod.splits)
    have "(ev, tid, cb) \<in> set ls" using Cons.prems(2) a False by auto
    from Cons.IH[OF d this] l show ?thesis by auto
  next
    case True
    define s1 where "s1 = snd (call t c Undefined (clearTimeout t s))"
    have c1: "calls s1 = calls s @ [(t, Undefined)]" by (simp add: s1_def call_def clearTimeout_def)
    show ?thesis
    proof (cases "c Undefined")
      case None
      then have d: "in_dispatch ls ev s1 = (r, ls', s')"
        using Cons.prems(1) a True by (simp add: s1_def call_def)
      show ?thesis
      proof (cases "(ev, tid, cb) \<in> set ls")
        case True
        from Cons.IH[OF d this] show ?thesis .
      next
        case False
        then have "t = tid" using Cons.prems(2) a by auto
        moreover obtain C where "calls s' = calls s1 @ C" using in_dispatch_calls[OF d] by blast
        ultimately show ?thesis using c1 by simp
      qed
    next
      case (Some x)
      then have "s' = s1" "ls' = ls" "r = Some x"
        using Cons.prems(1) a True by (simp_all add: s1_def call_def)
      then show ?thesis using c1 Cons.prems(2) a by auto
    qed
  qed
qed

lemma ack_resolves:
  assumes "waiters_inv s" and "(ev, tid, cb) \<in> set (in_emitter s)" and "in_emit ev s = (r, s')"
  shows "(called tid s' = [Undefined] \<and> \<not> armed tid s' \<and> (\<forall>l \<in> set (in_emitter s'). fst (snd l) \<noteq> tid))
       \<or> (r \<noteq> None \<and> called tid s' = [] \<and> armed tid s' \<and> (ev, tid, cb) \<in> set (in_emitter s'))"
proof -
  obtain ls' s1 where d: "in_dispatch (in_emitter s) ev s = (r, ls', s1)"
    and s': "s' = s1\<lparr>in_emitter := ls'\<rparr>"
    using assms(3) unfolding in_emit_def by (auto split: prod.splits)
  have w: "waiters_inv s'" using in_emit_waiters[OF assms(1), of ev] assms(3) by simp
  then have wo: "waiters_ok (in_emitter s') (timers s') (calls s') (next_timer s')"
    by (simp add: waiters_inv_def)
  from in_dispatch_resolves[OF d assms(2)]
  show ?thesis
  proof
    assume c: "(tid, Undefined) \<in> set (calls s1)"
    then have m: "(tid, Undefined) \<in> set (calls s')" using s' by simp
    then have "tid \<in> fst ` set (calls s')" by force
    from waiters_ok_called(2)[OF wo this] filter_distinct_mem[OF _ m] wo
    show ?thesis by (simp add: called_def armed_def waiters_ok_def)
  next
    assume c: "r \<noteq> None \<and> (ev, tid, cb) \<in> set ls'"
    then have p: "(ev, tid, cb) \<in> set (in_emitter s')" using s' by simp
    from waiters_ok_pending[OF wo p] c p
    show ?thesis by (auto simp: called_def armed_def filter_empty_conv image_iff)
  qed
qed

lemma late_ack_noop:
  assumes "\<forall>l \<in> set (in_emitter s). fst (snd l) \<noteq> tid"
  shows "called tid (snd (in_emit ev s)) = called tid s"
proof -
  obtain r ls' s1 where d: "in_dispatch (in_emitter s) ev s = (r, ls', s1)"
    by (metis prod_cases3)
  then have s': "snd (in_emit ev s) = s1\<lparr>in_emitter := ls'\<rparr>" by (simp add: in_emit_def)
  from in_dispatch_calls[OF d] obtain C where "calls s1 = calls s @ C"
    "\<forall>c \<in> set C. fst c \<in> (\<lambda>l. fst (snd l)) ` set (in_emitter s) \<and> snd c = Undefined" by blast
  then have "filter (\<lambda>c. fst c = tid) (calls s1) = filter (\<lambda>c. fst c = tid) (calls s)"
    using assms by (fastforce simp: filter_empty_conv image_iff)
  then show ?thesis using s' by (simp add: called_def)
qed

lemma timeout_resolves:
  assumes "waiters_inv s" and "(ev, tid, cb) \<in> set (in_emitter s)"
  shows "called tid (snd (fire tid s)) = [js_Error ''Delivery timeout.'']"
    and "\<not> armed tid (snd (fire tid s))"
    and "\<forall>l \<in> set (in_emitter (snd (fire tid s))). fst (snd l) \<noteq> tid"
proof -
  have wo: "waiters_ok (in_emitter s) (timers s) (calls s) (next_timer s)"
    using assms(1) by (simp add: waiters_inv_def)
  from waiters_ok_pending(1)[OF wo assms(2)] obtain d where
    m: "map_of (timers s) tid = Some (d, AckTimeout ev cb)" by blast
  have c: "calls (snd (fire tid s)) = calls s @ [(tid, js_Error ''Delivery timeout.'')]"
    using m by (simp add: fire_def Let_def call_def clearTimeout_def)
  have w: "waiters_inv (snd (fire tid s))" using fire_waiters[OF assms(1)] .
  then have wo': "waiters_ok (in_emitter (snd (fire tid s))) (timers (snd (fire tid s)))
      (calls (snd (fire tid s))) (next_timer (snd (fire tid s)))" by (simp add: waiters_inv_def)
  have mem: "(tid, js_Error ''Delivery timeout.'') \<in> set (calls (snd (fire tid s)))" using c by simp
  then have "tid \<in> fst ` set (calls (snd (fire tid s)))" by force
  from waiters_ok_called(2)[OF wo' this] filter_distinct_mem[OF _ mem] wo'
  show "called tid (snd (fire tid s)) = [js_Error ''Delivery timeout.'']"
    and "\<not> armed tid (snd (fire tid s))"
    and "\<forall>l \<in> set (in_emitter (snd (fire tid s))). fst (snd l) \<noteq> tid"
    by (simp_all add: called_def armed_def waiters_ok_def)
qed

lemma cleared_timer_noop: "\<not> armed tid s \<Longrightarrow> fire tid s = (None, s)"
  by (cases "map_of (timers s) tid") (simp_all add: armed_def fire_def)

lemma dispatch'_calls:
  "dispatch' ls ev args s = (r, ls', s') \<Longrightarrow>
     \<exists>C. calls s' = calls s @ C \<and> (\<forall>c \<in> set C. fst c \<in> (\<lambda>l. fst (snd l)) ` set (acks_of ls) \<and> snd c = Undefined)"
proof (induction ls arbitrary: s r ls' s')
  case Nil
  then show ?case by simp
next
  case (Cons a ls)
  obtain e l where a: "a = (e, l)" by (cases a)
  have skip: "\<And>ls1. dispatch' ls ev args s = (r, ls1, s') \<Longrightarrow> ?case"
  proof -
    fix ls1 assume "dispatch' ls ev args s = (r, ls1, s')"
    from Cons.IH[OF this] show ?case using a by (cases l) auto
  qed
  show ?case
  proof (cases "e = ev")
    case False
    then obtain ls1 where "dispatch' ls ev args s = (r, ls1, s')"
      using Cons.prems a by (auto split: prod.splits)
    then show ?thesis by (rule skip)
  next
    case True
    show ?thesis
    proof (cases l)
      case (Handler' h)
      show ?thesis
      proof (cases "h args")
        case None
        then obtain ls1 where "dispatch' ls ev args s = (r, ls1, s')"
          using Cons.prems a True Handler' by (auto split: prod.splits)
        then show ?thesis by (rule skip)
      next
        case (Some x)
        then have "s' = s" using Cons.prems a True Handler' by simp
        then show ?thesis by simp
      qed
    next
      case (OnAck' tid cb)
      define s1 where "s1 = snd (call tid cb Undefined (clearTimeout tid s))"
      have c1: "calls s1 = calls s @ [(tid, Undefined)]"
        by (simp add: s1_def call_def clearTimeout_def)
      show ?thesis
      proof (cases "cb Undefined")
        case None
        then have "dispatch' ls ev args s1 = (r, ls', s')"
          using Cons.prems a True OnAck' by (simp add: s1_def call_def)
        from Cons.IH[OF this] obtain C where "calls s' = calls s1 @ C"
          "\<forall>c \<in> set C. fst c \<in> (\<lambda>l. fst (snd l)) ` set (acks_of ls) \<and> snd c = Undefined" by blast
        then show ?thesis using c1 a OnAck'
          by (intro exI[of _ "(tid, Undefined) # C"]) auto
      next
        case (Some x)
        then have "s' = s1" using Cons.prems a True OnAck' by (simp add: s1_def call_def)
        then show ?thesis using c1 a OnAck' by (intro exI[of _ "[(tid, Undefined)]"]) auto
      qed
    qed
  qed
qed

lemma dispatch'_resolves:
  "dispatch' ls ev args s = (r, ls', s') \<Longrightarrow> (ev, tid, cb) \<in> set (acks_of ls) \<Longrightarrow>
     (tid, Undefined) \<in> set (calls s') \<or> (r \<noteq> None \<and> (ev, tid, cb) \<in> set (acks_of ls'))"
proof (induction ls arbitrary: s r ls' s')
  case Nil
  then show ?case by simp
next
  case (Cons a ls)
  obtain e l where a: "a = (e, l)" by (cases a)
  have skip: "\<And>ls1. dispatch' ls ev args s = (r, ls1, s') \<Longrightarrow> ls' = a # ls1
      \<Longrightarrow> (ev, tid, cb) \<in> set (acks_of ls) \<Longrightarrow> ?case"
  proof -
    fix ls1 assume d: "dispatch' ls ev args s = (r, ls1, s')" and l: "ls' = a # ls1"
      and m: "(ev, tid, cb) \<in> set (acks_of ls)"
    from Cons.IH[OF d m] l a show ?case by (cases l) auto
  qed
  show ?case
  proof (cases "e = ev")
    case False
    then obtain ls1 where d: "dispatch' ls ev args s = (r, ls1, s')" and l: "ls' = a # ls1"
      using Cons.prems(1) a by (auto split: prod.splits)
    have "(ev, tid, cb) \<in> set (acks_of ls)" using Cons.prems(2) a False by (cases l) auto
    with d l show ?thesis by (rule skip)
  next
    case True
    show ?thesis
    proof (cases l)
      case (Handler' h)
      have m: "(ev, tid, cb) \<in> set (acks_of ls)" using Cons.prems(2) a Handler' by simp
      show ?thesis
      proof (cases "h args")
        case None
        then obtain ls1 where d: "dispatch' ls ev args s = (r, ls1, s')" and l: "ls' = a # ls1"
          using Cons.prems(1) a True Handler' by (auto split: prod.splits)
        from d l m show ?thesis by (rule skip)
      next
        case (Some x)
        then have "ls' = a # ls" "r = Some x" using Cons.prems(1) a True Handler' by simp_all
        then show ?thesis using Cons.prems(2) by simp
      qed
    next
      case (OnAck' t c)
      define s1 where "s1 = snd (call t c Undefined (clearTimeout t s))"
      have c1: "calls s1 = calls s @ [(t, Undefined)]"
        by (simp add: s1_def call_def clearTimeout_def)
      show ?thesis
      proof (cases "c Undefined")
        case None
        then have d: "dispatch' ls ev args s1 = (r, ls', s')"
          using Cons.prems(1) a True OnAck' by (simp add: s1_def call_def)
        show ?thesis
        proof (cases "(ev, tid, cb) \<in> set (acks_of ls)")
          case True
          from Cons.IH[OF d this] show ?thesis .
        next
          case False
          then have "t = tid" using Cons.prems(2) a OnAck' by auto
          moreover obtain C where "calls s' = calls s1 @ C" using dispatch'_calls[OF d] by blast
          ultimately show ?thesis using c1 by simp
        qed
      next
        case (Some x)
        then have "s' = s1" "ls' = ls" "r = Some x"
          using Cons.prems(1) a True OnAck' by (simp_all add: s1_def call_def)
        then show ?thesis using c1 Cons.prems(2) a OnAck' by auto
      qed
    qed
  qed
qed

lemma ack_resolves':
  assumes "waiters_inv' s" and "(ev, tid, cb) \<in> set (acks_of (callbacks s))"
    and "emit' ev args s = (r, s')"
  shows "(called tid s' = [Undefined] \<and> \<not> armed tid s'
            \<and> (\<forall>l \<in> set (acks_of (callbacks s')). fst (snd l) \<noteq> tid))
       \<or> (r \<noteq> None \<and> called tid s' = [] \<and> armed tid s' \<and> (ev, tid, cb) \<in> set (acks_of (callbacks s')))"
proof -
  obtain ls' s1 where d: "dispatch' (callbacks s) ev args (s\<lparr>emitted := emitted s @ [(ev, args)]\<rparr>) = (r, ls', s1)"
    and s': "s' = s1\<lparr>callbacks := ls'\<rparr>"
    using assms(3) unfolding emit'_def by (auto split: prod.splits)
  have w: "waiters_inv' s'" using emit'_waiters[OF assms(1), of ev args] assms(3) by simp
  then have wo: "waiters_ok (acks_of (callbacks s')) (timers s') (calls s') (next_timer s')"
    by (simp add: waiters_inv'_def)
  from dispatch'_resolves[OF d assms(2)]
  show ?thesis
  proof
    assume c: "(tid, Undefined) \<in> set (calls s1)"
    then have m: "(tid, Undefined) \<in> set (calls s')" using s' by simp
    then have "tid \<in> fst ` set (calls s')" by force
    from waiters_ok_called(2)[OF wo this] filter_distinct_mem[OF _ m] wo
    show ?thesis by (simp add: called_def armed_def waiters_ok_def)
  next
    assume c: "r \<noteq> None \<and> (ev, tid, cb) \<in> set (acks_of ls')"
    then have p: "(ev, tid, cb) \<in> set (acks_of (callbacks s'))" using s' by simp
    from waiters_ok_pending[OF wo p] c p
    show ?thesis by (auto simp: called_def armed_def filter_empty_conv image_iff)
  qed
qed

lemma late_ack_noop':
  assumes "\<forall>l \<in> set (acks_of (callbacks s)). fst (snd l) \<noteq> tid"
  shows "called tid (snd (emit' ev args s)) = called tid s"
proof -
  obtain r ls' s1 where d: "dispatch' (callbacks s) ev args (s\<lparr>emitted := emitted s @ [(ev, args)]\<rparr>) = (r, ls', s1)"
    by (metis prod_cases3)
  then have s': "snd (emit' ev args s) = s1\<lparr>callbacks := ls'\<rparr>" by (simp add: emit'_def)
  from dispatch'_calls[OF d] obtain C where "calls s1 = calls s @ C"
    "\<forall>c \<in> set C. fst c \<in> (\<lambda>l. fst (snd l)) ` set (acks_of (callbacks s)) \<and> snd c = Undefined"
    by auto
  then have "filter (\<lambda>c. fst c = tid) (calls s1) = filter (\<lambda>c. fst c = tid) (calls s)"
    using assms by (fastforce simp: filter_empty_conv image_iff)
  then show ?thesis using s' by (simp add: called_def)
qed

lemma timeout_resolves':
  assumes "waiters_inv' s" and "(ev, tid, cb) \<in> set (acks_of (callbacks s))"
  shows "called tid (snd (fire' tid s)) = [js_Error ''Delivery timeout.'']"
    and "\<not> armed tid (snd (fire' tid s))"
    and "\<forall>l \<in> set (acks_of (callbacks (snd (fire' tid s)))). fst (snd l) \<noteq> tid"
proof -
  have wo: "waiters_ok (acks_of (callbacks s)) (timers s) (calls s) (next_timer s)"
    using assms(1) by (simp add: waiters_inv'_def)
  from waiters_ok_pending(1)[OF wo assms(2)] obtain d where
    m: "map_of (timers s) tid = Some (d, AckTimeout ev cb)" by blast
  have c: "calls (snd (fire' tid s)) = calls s @ [(tid, js_Error ''Delivery timeout.'')]"
    using m by (simp add: fire'_def Let_def call_def clearTimeout_def)
  have w: "waiters_inv' (snd (fire' tid s))" using fire'_waiters[OF assms(1)] .
  then have wo': "waiters_ok (acks_of (callbacks (snd (fire' tid s)))) (timers (snd (fire' tid s)))
      (calls (snd (fire' tid s))) (next_timer (snd (fire' tid s)))" by (simp add: waiters_inv'_def)
  have mem: "(tid, js_Error ''Delivery timeout.'') \<in> set (calls (snd (fire' tid s)))" using c by simp
  then have "tid \<in> fst ` set (calls (snd (fire' tid s)))" by force
  from waiters_ok_called(2)[OF wo' this] filter_distinct_mem[OF _ mem] wo'
  show "called tid (snd (fire' tid s)) = [js_Error ''Delivery timeout.'']"
    and "\<not> armed tid (snd (fire' tid s))"
    and "\<forall>l \<in> set (acks_of (callbacks (snd (fire' tid s)))). fst (snd l) \<noteq> tid"
    by (simp_all add: called_def armed_def waiters_ok_def)
qed

lemma cleared_timer_noop': "\<not> armed tid s \<Longrightarrow> fire' tid s = (None, s)"
  by (cases "map_of (timers s) tid") (simp_all add: armed_def fire'_def)

lemma subscribeAck_registers:
  "waiting (''ack:'' @ js_string (js_get message ''id'')) (next_timer s) cb (subscribeAck message cb s)"
  by (simp add: waiting_def subscribeAck_def setTimeout_def Let_def)

lemma called_once:
  assumes "waiters_ok L T C N"
  shows "length (map snd (filter (\<lambda>c. fst c = tid) C)) \<le> 1"
  using waiters_ok_called(1)[OF assms, of tid] by simp

lemma pending_part:
  assumes "waiters_inv s" and "waiting ev tid cb s"
  shows "called tid s = [] \<and> armed tid s"
proof -
  have wo: "waiters_ok (in_emitter s) (timers s) (calls s) (next_timer s)"
    using assms(1) by (simp add: waiters_inv_def)
  from waiters_ok_pending[OF wo, of ev tid cb] assms(2)
  show ?thesis by (auto simp: waiting_def called_def armed_def filter_empty_conv image_iff)
qed

lemma pending_part':
  assumes "waiters_inv' s" and "waiting' ev tid cb s"
  shows "called tid s = [] \<and> armed tid s"
proof -
  have wo: "waiters_ok (acks_of (callbacks s)) (timers s) (calls s) (next_timer s)"
    using assms(1) by (simp add: waiters_inv'_def)
  from waiters_ok_pending[OF wo, of ev tid cb] assms(2)
  show ?thesis by (auto simp: waiting'_def called_def armed_def filter_empty_conv image_iff)
qed

lemma resolved_part:
  assumes "waiters_inv s"
  shows "length (called tid s) \<le> 1 \<and> (called tid s \<noteq> [] \<longrightarrow> \<not> armed tid s \<and> \<not> listening tid s)"
proof -
  have wo: "waiters_ok (in_emitter s) (timers s) (calls s) (next_timer s)"
    using assms(1) by (simp add: waiters_inv_def)
  have "called tid s \<noteq> [] \<Longrightarrow> tid \<in> fst ` set (calls s)"
    by (auto simp: called_def filter_empty_conv image_iff)
  with waiters_ok_called(2)[OF wo, of tid] called_once[OF wo, of tid]
  show ?thesis by (auto simp: called_def armed_def listening_def)
qed

lemma resolved_part':
  assumes "waiters_inv' s"
  shows "length (called tid s) \<le> 1 \<and> (called tid s \<noteq> [] \<longrightarrow> \<not> armed tid s \<and> \<not> listening' tid s)"
proof -
  have wo: "waiters_ok (acks_of (callbacks s)) (timers s) (calls s) (next_timer s)"
    using assms(1) by (simp add: waiters_inv'_def)
  have "called tid s \<noteq> [] \<Longrightarrow> tid \<in> fst ` set (calls s)"
    by (auto simp: called_def filter_empty_conv image_iff)
  with waiters_ok_called(2)[OF wo, of tid] called_once[OF wo, of tid]
  show ?thesis by (auto simp: called_def armed_def listening'_def)
qed

text \<open>
  C3. An ack waiter is resolved once, by its ack or by its timeout. For both
  controllers, every state reached from a fresh client satisfies the waiter
  invariant, and \<open>subscribeAck\<close> registers a waiter under the id of its timer. In
  a state with the invariant: no registration has called its callback more than
  once, and one that has called it has neither a timer pending nor a listener
  left. For a waiter that is registered: its callback has not been called and
  its timeout is pending; when the timeout fires, the callback is called once,
  with the error \<open>Delivery timeout.\<close>, and the listener is removed; when its ack
  event is emitted, the callback is called once, with no error, the timer is
  cleared and the listener removed, unless a callback called earlier for the
  same event threw, in which case the waiter is as before and its timeout still
  pending. Afterwards the other path does nothing: a timer that is not pending
  fires nothing, and an ack event makes no call for a waiter that does not
  listen any more.
\<close>

theorem ack_waiter_resolved_once:
  "waiters_inv (run es (new_Client cid url data ackTimeout responseTimeout b m))
   \<and> waiters_inv' (run' es (new_Client' cid user url disconnectedAfter ackTimeout b m))
   \<and> waiting (''ack:'' @ js_string (js_get message ''id'')) (next_timer s) cb (subscribeAck message cb s)
   \<and> (waiters_inv s \<longrightarrow>
        length (called tid s) \<le> 1
        \<and> (called tid s \<noteq> [] \<longrightarrow> \<not> armed tid s \<and> \<not> listening tid s)
        \<and> (waiting ev tid cb s \<longrightarrow>
             called tid s = [] \<and> armed tid s
             \<and> called tid (snd (fire tid s)) = [js_Error ''Delivery timeout.'']
             \<and> \<not> armed tid (snd (fire tid s)) \<and> \<not> listening tid (snd (fire tid s))
             \<and> ((called tid (snd (in_emit ev s)) = [Undefined]
                   \<and> \<not> armed tid (snd (in_emit ev s)) \<and> \<not> listening tid (snd (in_emit ev s)))
                \<or> (fst (in_emit ev s) \<noteq> None \<and> called tid (snd (in_emit ev s)) = []
                   \<and> armed tid (snd (in_emit ev s)) \<and> waiting ev tid cb (snd (in_emit ev s))))))
   \<and> (\<not> armed tid s \<longrightarrow> fire tid s = (None, s))
   \<and> (\<not> listening tid s \<longrightarrow> called tid (snd (in_emit ev s)) = called tid s)
   \<and> (waiters_inv' t \<longrightarrow>
        length (called tid t) \<le> 1
        \<and> (called tid t \<noteq> [] \<longrightarrow> \<not> armed tid t \<and> \<not> listening' tid t)
        \<and> (waiting' ev tid cb t \<longrightarrow>
             called tid t = [] \<and> armed tid t
             \<and> called tid (snd (fire' tid t)) = [js_Error ''Delivery timeout.'']
             \<and> \<not> armed tid (snd (fire' tid t)) \<and> \<not> listening' tid (snd (fire' tid t))
             \<and> ((called tid (snd (emit' ev args t)) = [Undefined]
                   \<and> \<not> armed tid (snd (emit' ev args t)) \<and> \<not> listening' tid (snd (emit' ev args t)))
                \<or> (fst (emit' ev args t) \<noteq> None \<and> called tid (snd (emit' ev args t)) = []
                   \<and> armed tid (snd (emit' ev args t)) \<and> waiting' ev tid cb (snd (emit' ev args t))))))
   \<and> (\<not> armed tid t \<longrightarrow> fire' tid t = (None, t))
   \<and> (\<not> listening' tid t \<longrightarrow> called tid (snd (emit' ev args t)) = called tid t)"
proof -
  have 1: "waiters_inv (run es (new_Client cid url data ackTimeout responseTimeout b m))"
    by (rule run_waiters[OF new_Client_waiters])
  have 2: "waiters_inv' (run' es (new_Client' cid user url disconnectedAfter ackTimeout b m))"
    by (rule run'_waiters[OF new_Client'_waiters])
  have 3: "waiting (''ack:'' @ js_string (js_get message ''id'')) (next_timer s) cb (subscribeAck message cb s)"
    by (rule subscribeAck_registers)
  have 4: "waiters_inv s \<longrightarrow>
        length (called tid s) \<le> 1
        \<and> (called tid s \<noteq> [] \<longrightarrow> \<not> armed tid s \<and> \<not> listening tid s)
        \<and> (waiting ev tid cb s \<longrightarrow>
             called tid s = [] \<and> armed tid s
             \<and> called tid (snd (fire tid s)) = [js_Error ''Delivery timeout.'']
             \<and> \<not> armed tid (snd (fire tid s)) \<and> \<not> listening tid (snd (fire tid s))
             \<and> ((called tid (snd (in_emit ev s)) = [Undefined]
                   \<and> \<not> armed tid (snd (in_emit ev s)) \<and> \<not> listening tid (snd (in_emit ev s)))
                \<or> (fst (in_emit ev s) \<noteq> None \<and> called tid (snd (in_emit ev s)) = []
                   \<and> armed tid (snd (in_emit ev s)) \<and> waiting ev tid cb (snd (in_emit ev s)))))"
  proof (intro impI conjI)
    assume w: "waiters_inv s"
    from resolved_part[OF w, of tid] show "length (called tid s) \<le> 1" by simp
    { assume "called tid s \<noteq> []"
      with resolved_part[OF w, of tid] show "\<not> armed tid s" "\<not> listening tid s" by simp_all }
    assume p: "waiting ev tid cb s"
    from pending_part[OF w p] show "called tid s = []" "armed tid s" by simp_all
    have m: "(ev, tid, cb) \<in> set (in_emitter s)" using p by (simp add: waiting_def)
    from timeout_resolves[OF w m]
    show "called tid (snd (fire tid s)) = [js_Error ''Delivery timeout.'']"
      "\<not> armed tid (snd (fire tid s))" "\<not> listening tid (snd (fire tid s))"
      by (simp_all add: listening_def)
    from ack_resolves[OF w m, of "fst (in_emit ev s)" "snd (in_emit ev s)"]
    show "(called tid (snd (in_emit ev s)) = [Undefined]
             \<and> \<not> armed tid (snd (in_emit ev s)) \<and> \<not> listening tid (snd (in_emit ev s)))
          \<or> (fst (in_emit ev s) \<noteq> None \<and> called tid (snd (in_emit ev s)) = []
             \<and> armed tid (snd (in_emit ev s)) \<and> waiting ev tid cb (snd (in_emit ev s)))"
      by (simp add: listening_def waiting_def)
  qed
  have 5: "\<not> armed tid s \<longrightarrow> fire tid s = (None, s)" by (simp add: cleared_timer_noop)
  have 6: "\<not> listening tid s \<longrightarrow> called tid (snd (in_emit ev s)) = called tid s"
    using late_ack_noop[of s tid ev] by (simp add: listening_def)
  have 7: "waiters_inv' t \<longrightarrow>
        length (called tid t) \<le> 1
        \<and> (called tid t \<noteq> [] \<longrightarrow> \<not> armed tid t \<and> \<not> listening' tid t)
        \<and> (waiting' ev tid cb t \<longrightarrow>
             called tid t = [] \<and> armed tid t
             \<and> called tid (snd (fire' tid t)) = [js_Error ''Delivery timeout.'']
             \<and> \<not> armed tid (snd (fire' tid t)) \<and> \<not> listening' tid (snd (fire' tid t))
             \<and> ((called tid (snd (emit' ev args t)) = [Undefined]
                   \<and> \<not> armed tid (snd (emit' ev args t)) \<and> \<not> listening' tid (snd (emit' ev args t)))
                \<or> (fst (emit' ev args t) \<noteq> None \<and> called tid (snd (emit' ev args t)) = []
                   \<and> armed tid (snd (emit' ev args t)) \<and> waiting' ev tid cb (snd (emit' ev args t)))))"
  proof (intro impI conjI)
    assume w: "waiters_inv' t"
    from resolved_part'[OF w, of tid] show "length (called tid t) \<le> 1" by simp
    { assume "called tid t \<noteq> []"
      with resolved_part'[OF w, of tid] show "\<not> armed tid t" "\<not> listening' tid t" by simp_all }
    assume p: "waiting' ev tid cb t"
    from pending_part'[OF w p] show "called tid t = []" "armed tid t" by simp_all
    have m: "(ev, tid, cb) \<in> set (acks_of (callbacks t))" using p by (simp add: waiting'_def)
    from timeout_resolves'[OF w m]
    show "called tid (snd (fire' tid t)) = [js_Error ''Delivery timeout.'']"
      "\<not> armed tid (snd (fire' tid t))" "\<not> listening' tid (snd (fire' tid t))"
      by (simp_all add: listening'_def)
    from ack_resolves'[OF w m, of args "fst (emit' ev args t)" "snd (emit' ev args t)"]
    show "(called tid (snd (emit' ev args t)) = [Undefined]
             \<and> \<not> armed tid (snd (emit' ev args t)) \<and> \<not> listening' tid (snd (emit' ev args t)))
          \<or> (fst (emit' ev args t) \<noteq> None \<and> called tid (snd (emit' ev args t)) = []
             \<and> armed tid (snd (emit' ev args t)) \<and> waiting' ev tid cb (snd (emit' ev args t)))"
      by (simp add: listening'_def waiting'_def)
  qed
  have 8: "\<not> armed tid t \<longrightarrow> fire' tid t = (None, t)" by (simp add: cleared_timer_noop')
  have 9: "\<not> listening' tid t \<longrightarrow> called tid (snd (emit' ev args t)) = called tid t"
    using late_ack_noop'[of t tid ev args] by (simp add: listening'_def)
  from 1 2 3 4 5 6 7 8 9 show ?thesis by blast
qed

theorem ack_waiter_resolved_once_witness:
  "waiters_inv (run sent client0)
   \<and> waiting ''ack:0'' 0 noop (run sent client0)
   \<and> called 0 (run sent client0) = [] \<and> armed 0 (run sent client0)
   \<and> called 0 (snd (fire 0 (run sent client0))) = [js_Error ''Delivery timeout.'']
   \<and> \<not> armed 0 (snd (fire 0 (run sent client0)))
   \<and> \<not> listening 0 (snd (fire 0 (run sent client0)))
   \<and> called 0 (snd (in_emit ''ack:0'' (run sent client0))) = [Undefined]
   \<and> \<not> armed 0 (snd (in_emit ''ack:0'' (run sent client0)))
   \<and> \<not> listening 0 (snd (in_emit ''ack:0'' (run sent client0)))
   \<and> called 0 (snd (in_emit ''ack:0'' (snd (fire 0 (run sent client0))))) = [js_Error ''Delivery timeout.'']
   \<and> called 0 (snd (fire 0 (snd (in_emit ''ack:0'' (run sent client0))))) = [Undefined]
   \<and> called 0 (run (sent @ [Fire 0, Succeed 1 acked True]) client0) = [js_Error ''Delivery timeout.'']
   \<and> called 0 (run (sent @ [Succeed 1 acked True, Fire 0]) client0) = [Undefined]
   \<and> waiters_inv' (run' sent client0')
   \<and> waiting' ''ack:0'' 0 noop (run' sent client0')
   \<and> called 0 (run' sent client0') = [] \<and> armed 0 (run' sent client0')
   \<and> called 0 (snd (fire' 0 (run' sent client0'))) = [js_Error ''Delivery timeout.'']
   \<and> \<not> armed 0 (snd (fire' 0 (run' sent client0')))
   \<and> \<not> listening' 0 (snd (fire' 0 (run' sent client0')))
   \<and> called 0 (snd (emit' ''ack:0'' [] (run' sent client0'))) = [Undefined]
   \<and> \<not> armed 0 (snd (emit' ''ack:0'' [] (run' sent client0')))
   \<and> \<not> listening' 0 (snd (emit' ''ack:0'' [] (run' sent client0')))
   \<and> called 0 (snd (emit' ''ack:0'' [] (snd (fire' 0 (run' sent client0'))))) = [js_Error ''Delivery timeout.'']
   \<and> called 0 (snd (fire' 0 (snd (emit' ''ack:0'' [] (run' sent client0'))))) = [Undefined]
   \<and> called 0 (run' (sent @ [Fire 0, Succeed 1 acked True]) client0') = [js_Error ''Delivery timeout.'']
   \<and> called 0 (run' (sent @ [Succeed 1 acked True, Fire 0]) client0') = [Undefined]"
proof -
  have ev: "waiting ''ack:0'' 0 noop (run sent client0)
     \<and> called 0 (run sent client0) = [] \<and> armed 0 (run sent client0)
     \<and> called 0 (snd (fire 0 (run sent client0))) = [js_Error ''Delivery timeout.'']
     \<and> \<not> armed 0 (snd (fire 0 (run sent client0)))
     \<and> \<not> listening 0 (snd (fire 0 (run sent client0)))
     \<and> called 0 (snd (in_emit ''ack:0'' (run sent client0))) = [Undefined]
     \<and> \<not> armed 0 (snd (in_emit ''ack:0'' (run sent client0)))
     \<and> \<not> listening 0 (snd (in_emit ''ack:0'' (run sent client0)))
     \<and> called 0 (snd (in_emit ''ack:0'' (snd (fire 0 (run sent client0))))) = [js_Error ''Delivery timeout.'']
     \<and> called 0 (snd (fire 0 (snd (in_emit ''ack:0'' (run sent client0))))) = [Undefined]
     \<and> called 0 (run (sent @ [Fire 0, Succeed 1 acked True]) client0) = [js_Error ''Delivery timeout.'']
     \<and> called 0 (run (sent @ [Succeed 1 acked True, Fire 0]) client0) = [Undefined]"
    by (simp add: controller_defs noop_def sent_def acked_def assigned_def waiting_def listening_def
        called_def armed_def show_nat.simps digit_def)
  have ev': "waiting' ''ack:0'' 0 noop (run' sent client0')
     \<and> called 0 (run' sent client0') = [] \<and> armed 0 (run' sent client0')
     \<and> called 0 (snd (fire' 0 (run' sent client0'))) = [js_Error ''Delivery timeout.'']
     \<and> \<not> armed 0 (snd (fire' 0 (run' sent client0')))
     \<and> \<not> listening' 0 (snd (fire' 0 (run' sent client0')))
     \<and> called 0 (snd (emit' ''ack:0'' [] (run' sent client0'))) = [Undefined]
     \<and> \<not> armed 0 (snd (emit' ''ack:0'' [] (run' sent client0')))
     \<and> \<not> listening' 0 (snd (emit' ''ack:0'' [] (run' sent client0')))
     \<and> called 0 (snd (emit' ''ack:0'' [] (snd (fire' 0 (run' sent client0'))))) = [js_Error ''Delivery timeout.'']
     \<and> called 0 (snd (fire' 0 (snd (emit' ''ack:0'' [] (run' sent client0'))))) = [Undefined]
     \<and> called 0 (run' (sent @ [Fire 0, Succeed 1 acked True]) client0') = [js_Error ''Delivery timeout.'']
     \<and> called 0 (run' (sent @ [Succeed 1 acked True, Fire 0]) client0') = [Undefined]"
    by (simp add: controller_defs controller'_defs sent_def acked_def assigned_def waiting'_def listening'_def
        called_def armed_def show_nat.simps digit_def)
  show ?thesis
    using ev ev'
      ack_waiter_resolved_once[where es = sent and cid = Undefined and user = "JStr ''u1''"
        and url = "''/lpio''" and data = "[]" and ackTimeout = 1000 and responseTimeout = 25000
        and disconnectedAfter = 5
        and b = "\<lparr>bms = 100, bmax = 10000, bfactor = 2, attempts = 0\<rparr>"
        and m = "\<lparr>buffer = [], started = True\<rparr>"
        and tid = 0 and ev = "''ack:0''" and cb = noop and args = "[]"
        and s = "run sent client0" and t = "run' sent client0'"]
      ack_waiter_resolved_once[where es = sent and cid = "JStr ''c1''" and user = "JStr ''u1''"
        and url = "''/lpio''" and data = "[]" and ackTimeout = 10000 and responseTimeout = 25000
        and disconnectedAfter = 5
        and b = "\<lparr>bms = 100, bmax = 10000, bfactor = 2, attempts = 0\<rparr>"
        and m = "\<lparr>buffer = [], started = True\<rparr>"
        and tid = 0 and ev = "''ack:0''" and cb = noop and args = "[]"
        and s = "run sent client0" and t = "run' sent client0'"]
      ack_waiter_resolved_once[where es = sent and cid = Undefined and user = "JStr ''u1''"
        and url = "''/lpio''" and data = "[]" and ackTimeout = 1000 and responseTimeout = 25000
        and disconnectedAfter = 5
        and b = "\<lparr>bms = 100, bmax = 10000, bfactor = 2, attempts = 0\<rparr>"
        and m = "\<lparr>buffer = [], started = True\<rparr>"
        and tid = 0 and ev = "''ack:0''" and cb = noop and args = "[]"
        and s = "snd (fire 0 (run sent client0))" and t = "snd (fire' 0 (run' sent client0'))"]
      ack_waiter_resolved_once[where es = sent and cid = Undefined and user = "JStr ''u1''"
        and url = "''/lpio''" and data = "[]" and ackTimeout = 1000 and responseTimeout = 25000
        and disconnectedAfter = 5
        and b = "\<lparr>bms = 100, bmax = 10000, bfactor = 2, attempts = 0\<rparr>"
        and m = "\<lparr>buffer = [], started = True\<rparr>"
        and tid = 0 and ev = "''ack:0''" and cb = noop and args = "[]"
        and s = "snd (in_emit ''ack:0'' (run sent client0))" and t = "snd (emit' ''ack:0'' [] (run' sent client0'))"]
    unfolding client0_def client0'_def
    by simp
qed

subsection \<open>C7: the first failure after a success\<close>



lemma rested_reset: "rested b (reset b)"
  by (simp add: rested_def)




































end
